theory Spec2Isabelle
  imports Main "HOL-Library.AList" "HOL-Library.Char_ord" "HOL-Library.List_Lexorder"
    "HOL-Library.Multiset" "HOL-Library.Sublist"
begin

section \<open>Strings\<close>

text \<open>
  A Python \<open>str\<close> is modelled as a \<open>string\<close> whose characters are the code points
  below 256. \<open>isspace\<close> is the test that both \<open>str.strip()\<close> and the regular
  expression class \<open>\s\<close> use (the code points 9 to 13, 28 to 32, 133 and 160 in that
  range); \<open>lower_char\<close> is \<open>str.lower()\<close> on one character.
\<close>

definition isspace :: "char \<Rightarrow> bool" where
  "isspace c = (let n = (of_char c :: nat) in
     (9 \<le> n \<and> n \<le> 13) \<or> (28 \<le> n \<and> n \<le> 32) \<or> n = 133 \<or> n = 160)"

definition strip :: "string \<Rightarrow> string" where
  "strip s = rev (dropWhile isspace (rev (dropWhile isspace s)))"

definition lower_char :: "char \<Rightarrow> char" where
  "lower_char c = (let n = (of_char c :: nat) in
     if (65 \<le> n \<and> n \<le> 90) \<or> (192 \<le> n \<and> n \<le> 222 \<and> n \<noteq> 215)
     then char_of (n + 32) else c)"

definition lower :: "string \<Rightarrow> string" where
  "lower s = map lower_char s"

text \<open>\<open>str_in sub s\<close> is Python's \<open>sub in s\<close> on strings.\<close>

fun str_in :: "'a list \<Rightarrow> 'a list \<Rightarrow> bool" where
  "str_in sub [] = (sub = [])"
| "str_in sub (c # cs) = (prefix sub (c # cs) \<or> str_in sub cs)"

text \<open>
  \<open>replace old new s\<close> is \<open>s.replace(old, new)\<close>: the occurrences of \<open>old\<close> are
  found from left to right without overlap; an empty \<open>old\<close> matches before every
  character and at the end.
\<close>

function replace :: "string \<Rightarrow> string \<Rightarrow> string \<Rightarrow> string" where
  "replace old new s =
     (if old = [] then new @ concat (map (\<lambda>c. c # new) s)
      else (case s of [] \<Rightarrow> []
        | c # cs \<Rightarrow>
            if prefix old s then new @ replace old new (drop (length old) s)
            else c # replace old new cs))"
  by pat_completeness auto
termination
  by (relation "measure (\<lambda>(old, new, s). length s)") auto

section \<open>The pair pattern and \<open>re.findall\<close>\<close>

text \<open>
  The items of the regular expression \<open>\(([^,]+),\s*([^\)]+)\)\<close>: a literal character,
  or a greedy repetition of a character class with a least number of characters; the
  flag says whether the item is a capture group.
\<close>

datatype rx = Lit char | Rep "char \<Rightarrow> bool" nat

type_synonym regex = "(rx \<times> bool) list"

definition pattern :: regex where
  "pattern =
     [(Lit CHR ''('', False),
      (Rep (\<lambda>c. c \<noteq> CHR '','') 1, True),
      (Lit CHR '','', False),
      (Rep isspace 0, False),
      (Rep (\<lambda>c. c \<noteq> CHR '')'') 1, True),
      (Lit CHR '')'', False)]"

text \<open>
  Backtracking: \<open>first_down f lo k\<close> tries the lengths \<open>k\<close>, \<open>k - 1\<close>, ... down to
  \<open>lo\<close> and keeps the first that lets the rest of the pattern match.
\<close>

primrec first_down :: "(nat \<Rightarrow> 'a option) \<Rightarrow> nat \<Rightarrow> nat \<Rightarrow> 'a option" where
  "first_down f lo 0 = (if lo = 0 then f 0 else None)"
| "first_down f lo (Suc k) =
     (if Suc k < lo then None
      else (case f (Suc k) of Some r \<Rightarrow> Some r | None \<Rightarrow> first_down f lo k))"

definition capture :: "bool \<Rightarrow> string \<Rightarrow> (string list \<times> string) \<Rightarrow> (string list \<times> string)" where
  "capture g piece res = (if g then (piece # fst res, snd res) else res)"

text \<open>
  \<open>rx_match es s\<close> matches the pattern at the start of \<open>s\<close>; it returns the captured
  groups and the text left after the match.
\<close>

fun rx_match :: "regex \<Rightarrow> string \<Rightarrow> (string list \<times> string) option" where
  "rx_match [] s = Some ([], s)"
| "rx_match ((Lit c, g) # es) s =
     (case s of [] \<Rightarrow> None
      | x # xs \<Rightarrow> if x = c then map_option (capture g [x]) (rx_match es xs) else None)"
| "rx_match ((Rep P n, g) # es) s =
     first_down (\<lambda>k. map_option (capture g (take k s)) (rx_match es (drop k s)))
       n (length (takeWhile P s))"

text \<open>
  \<open>findall es s\<close> is \<open>re.findall\<close>: the matches from left to right without overlap;
  after a match the scan goes on where the match ended (one character further after an
  empty match), after a failure one character further.
\<close>

function findall :: "regex \<Rightarrow> string \<Rightarrow> string list list" where
  "findall es s =
     (case rx_match es s of
        Some (gs, r) \<Rightarrow>
          gs # (if s = [] then [] else findall es (drop (max 1 (length s - length r)) s))
      | None \<Rightarrow> (case s of [] \<Rightarrow> [] | x # xs \<Rightarrow> findall es xs))"
  by pat_completeness auto
termination
  by (relation "measure (\<lambda>(es, s). length s)") auto

text \<open>
  The two groups of a match, each stripped: \<open>match[0].strip(), match[1].strip()\<close>
  (processor.py line 36, visualizer.py lines 36, 68 and 136).
\<close>

fun stripped_pair :: "string list \<Rightarrow> string \<times> string" where
  "stripped_pair (a # b # gs) = (strip a, strip b)"
| "stripped_pair [a] = (strip a, [])"
| "stripped_pair [] = ([], [])"

definition extract_pairs :: "string \<Rightarrow> (string \<times> string) list" where
  "extract_pairs s = map stripped_pair (findall pattern s)"

definition match_pair :: "string \<Rightarrow> ((string \<times> string) \<times> string) option" where
  "match_pair s = map_option (\<lambda>(gs, r). (stripped_pair gs, r)) (rx_match pattern s)"

text \<open>
  Following the spec's words: a well-formed group at the start of \<open>s\<close> is an open
  parenthesis, text without comma, a comma, optional whitespace, text without close
  parenthesis, and a close parenthesis; the pair is the two texts, trimmed.
\<close>

definition wf_group :: "string \<Rightarrow> string \<Rightarrow> string \<Rightarrow> string \<Rightarrow> bool" where
  "wf_group s a b rest =
     (\<exists>a0 w b0. s = CHR ''('' # a0 @ CHR '','' # w @ b0 @ CHR '')'' # rest \<and>
        a0 \<noteq> [] \<and> CHR '','' \<notin> set a0 \<and> (\<forall>c \<in> set w. isspace c) \<and>
        b0 \<noteq> [] \<and> CHR '')'' \<notin> set b0 \<and> a = strip a0 \<and> b = strip b0)"

text \<open>The match at the start of \<open>s\<close> in closed form: the first comma ends the first group, the first
  close parenthesis after it ends the second.\<close>

definition group_at :: "string \<Rightarrow> ((string \<times> string) \<times> string) option" where
  "group_at s =
     (case s of [] \<Rightarrow> None
      | c # r \<Rightarrow>
          if c \<noteq> CHR ''('' then None
          else let m = length (takeWhile (\<lambda>c. c \<noteq> CHR '','') r) in
            if m = 0 \<or> m = length r then None
            else let t = drop (Suc m) r;
                     d = length (takeWhile (\<lambda>c. c \<noteq> CHR '')'') t) in
              if d = 0 \<or> d = length t then None
              else Some ((strip (take m r), strip (take d t)), drop (Suc d) t))"

text \<open>
  Following the spec's words: the ordered left-to-right sequence of the well-formed groups
  of a string; where no group starts the scan moves one character on, after a group it
  goes on behind the group.
\<close>

declare findall.simps [simp del] replace.simps [simp del]

inductive groups_of :: "string \<Rightarrow> (string \<times> string) list \<Rightarrow> bool" where
  stop: "groups_of [] []"
| here: "wf_group s a b rest \<Longrightarrow> groups_of rest ps \<Longrightarrow> groups_of s ((a, b) # ps)"
| skip: "\<forall>a b rest. \<not> wf_group (c # s) a b rest \<Longrightarrow> groups_of s ps \<Longrightarrow> groups_of (c # s) ps"

section \<open>Tables and dictionaries\<close>

text \<open>
  A cell of a table holds text or is missing (pandas' NaN). \<open>str_cell\<close> is \<open>str(value)\<close>
  and \<open>fillna_str\<close> is \<open>fillna("").astype(str)\<close> on one cell. A table has its
  column names and its rows; a row gives the cell of each column.
\<close>

datatype cell = NaN | Str string

fun str_cell :: "cell \<Rightarrow> string" where
  "str_cell NaN = ''nan''"
| "str_cell (Str s) = s"

fun fillna_str :: "cell \<Rightarrow> string" where
  "fillna_str NaN = []"
| "fillna_str (Str s) = s"

record dataframe =
  df_columns :: "string list"
  df_rows :: "(string \<Rightarrow> cell) list"

text \<open>
  A Python \<open>dict\<close> keeps its keys in insertion order: an association list, where
  \<open>d[k] = v\<close> is \<open>AList.update k v d\<close> (the value of an old key is replaced in place, a
  new key goes to the end).
\<close>

type_synonym ('k, 'v) dict = "('k \<times> 'v) list"

section \<open>Entity processing (processor.py)\<close>

definition answer_column :: string where
  "answer_column = ''Answer to Question 2''"

text \<open>\<open>EntityProcessor.extract_entities\<close>: the set of the stripped sides of all matches,
  without the empty string, sorted.\<close>

definition match_entities :: "string \<Rightarrow> string list" where
  "match_entities v = concat (map (\<lambda>(a, b). [a, b]) (extract_pairs v))"

definition extract_entities :: "dataframe \<Rightarrow> string \<Rightarrow> string list" where
  "extract_entities df column =
     (if column \<notin> set (df_columns df) then []
      else let entities = set (concat (map (\<lambda>row. match_entities (fillna_str (row column)))
                                  (df_rows df)))
           in sorted_list_of_set (Set.filter (\<lambda>e. e \<noteq> []) entities))"

text \<open>\<open>str.split()\<close>: the maximal runs of characters that are not whitespace.\<close>

function split_ws :: "string \<Rightarrow> string list" where
  "split_ws s =
     (let t = dropWhile isspace s in
      if t = [] then []
      else takeWhile (\<lambda>c. \<not> isspace c) t # split_ws (dropWhile (\<lambda>c. \<not> isspace c) t))"
  by pat_completeness auto
termination
proof (relation "measure length")
  show "wf (measure length)" by simp
next
  fix s t :: string
  assume t: "t = dropWhile isspace s" and ne: "t \<noteq> []"
  have "length (dropWhile (\<lambda>c. \<not> isspace c) t) < length t"
  proof (cases t)
    case Nil
    then show ?thesis using ne by simp
  next
    case (Cons c cs)
    then have "\<not> isspace c" using t hd_dropWhile[of isspace s] by auto
    then show ?thesis using Cons length_dropWhile_le[of "\<lambda>c. \<not> isspace c" cs]
      by (simp add: le_imp_less_Suc)
  qed
  moreover have "length t \<le> length s" unfolding t by (rule length_dropWhile_le)
  ultimately show "(dropWhile (\<lambda>c. \<not> isspace c) t, s) \<in> measure length" by simp
qed

declare split_ws.simps [simp del]

text \<open>
  \<open>EntityProcessor._is_similar\<close>. The parameter \<open>exceeds\<close> stands for the floating-point
  test \<open>(common / total) > self.config.similarity_threshold\<close> on the two counts.
\<close>

definition is_similar :: "(nat \<Rightarrow> nat \<Rightarrow> bool) \<Rightarrow> string \<Rightarrow> string \<Rightarrow> bool" where
  "is_similar exceeds s1 s2 =
     (let s1_lower = lower s1; s2_lower = lower s2 in
      if str_in s1_lower s2_lower \<or> str_in s2_lower s1_lower then True
      else let words1 = set (split_ws s1_lower); words2 = set (split_ws s2_lower);
               common = card (words1 \<inter> words2);
               total = card (words1 \<union> words2)
           in if total > 0 then exceeds common total else False)"

text \<open>
  The two nested loops \<open>for i in range(len(entities)): for j in range(i + 1,
  len(entities))\<close> visit the index pairs in this order.
\<close>

definition index_pairs :: "nat \<Rightarrow> (nat \<times> nat) list" where
  "index_pairs n = concat (map (\<lambda>i. map (\<lambda>j. (i, j)) [i + 1 ..< n]) [0 ..< n])"

text \<open>The body of the inner loop: of a similar pair the shorter entity is kept as the
  standard, and on equal lengths the earlier one.\<close>

definition similar_step ::
  "(nat \<Rightarrow> nat \<Rightarrow> bool) \<Rightarrow> string list \<Rightarrow> (string, string) dict \<Rightarrow> nat \<times> nat
    \<Rightarrow> (string, string) dict" where
  "similar_step sim entities similar_phrases ij =
     (case ij of (i, j) \<Rightarrow>
        if sim i j then
          (if length (entities ! i) \<le> length (entities ! j)
           then AList.update (entities ! j) (entities ! i) similar_phrases
           else AList.update (entities ! i) (entities ! j) similar_phrases)
        else similar_phrases)"

definition similar_loop ::
  "(nat \<Rightarrow> nat \<Rightarrow> bool) \<Rightarrow> string list \<Rightarrow> (string, string) dict" where
  "similar_loop sim entities =
     foldl (similar_step sim entities) [] (index_pairs (length entities))"

text \<open>
  \<open>_find_similar_with_embeddings\<close>: \<open>above_threshold i j\<close> stands for the floating-point
  test \<open>pytorch_cos_sim(embeddings[i], embeddings[j]).item() > similarity_threshold\<close> of
  the sentence embedding model.
\<close>

definition find_similar_with_embeddings ::
  "string list \<Rightarrow> (nat \<Rightarrow> nat \<Rightarrow> bool) \<Rightarrow> (string, string) dict" where
  "find_similar_with_embeddings entities above_threshold =
     similar_loop above_threshold entities"

definition find_similar_with_strings ::
  "(nat \<Rightarrow> nat \<Rightarrow> bool) \<Rightarrow> string list \<Rightarrow> (string, string) dict" where
  "find_similar_with_strings exceeds entities =
     similar_loop (\<lambda>i j. is_similar exceeds (entities ! i) (entities ! j)) entities"

text \<open>\<open>find_similar_entities\<close>: the embedding model is optional.\<close>

definition find_similar_entities ::
  "(nat \<Rightarrow> nat \<Rightarrow> bool) \<Rightarrow> (nat \<Rightarrow> nat \<Rightarrow> bool) option \<Rightarrow> string list
    \<Rightarrow> (string, string) dict" where
  "find_similar_entities exceeds model entities =
     (if entities = [] then []
      else (case model of
              Some above_threshold \<Rightarrow> find_similar_with_embeddings entities above_threshold
            | None \<Rightarrow> find_similar_with_strings exceeds entities))"

text \<open>
  \<open>substitute_similar_entities\<close>. With an empty dictionary the table itself is returned.
  Otherwise each row's cell is read as \<open>str(row[column])\<close>, which raises \<open>KeyError\<close> when
  the table has rows but not the column, and every entry of the dictionary is applied in
  turn with \<open>str.replace\<close>.
\<close>

datatype error = KeyError

definition replace_all :: "(string, string) dict \<Rightarrow> string \<Rightarrow> string" where
  "replace_all similar_phrases cell_value =
     foldl (\<lambda>cell_value (similar, original). replace similar original cell_value)
       cell_value similar_phrases"

definition substitute_similar_entities ::
  "dataframe \<Rightarrow> (string, string) dict \<Rightarrow> string \<Rightarrow> error + dataframe" where
  "substitute_similar_entities df similar_phrases column =
     (if similar_phrases = [] then Inr df
      else if df_rows df = [] then Inr df
      else if column \<notin> set (df_columns df) then Inl KeyError
      else Inr (df\<lparr>df_rows :=
             map (\<lambda>row. row(column := Str (replace_all similar_phrases (str_cell (row column)))))
               (df_rows df)\<rparr>))"

text \<open>
  The test \<open>(common / total) > 0.8\<close> for the default threshold of the configuration
  (config.py line 28), on counts small enough for the division to be exact up to the
  last bit: \<open>common / total > 4 / 5\<close>.
\<close>

definition exceeds_default :: "nat \<Rightarrow> nat \<Rightarrow> bool" where
  "exceeds_default n_common n_total = (4 * n_total < 5 * n_common)"

text \<open>
  What one pass of the loop body for the index pair \<open>(i, j)\<close> writes: the entry
  \<open>k \<mapsto> v\<close> when the pair is similar, with the longer entity as the key and, on equal
  lengths, the later one.
\<close>

definition written_by ::
  "(nat \<Rightarrow> nat \<Rightarrow> bool) \<Rightarrow> string list \<Rightarrow> nat \<Rightarrow> nat \<Rightarrow> string \<Rightarrow> string \<Rightarrow> bool" where
  "written_by sim es i j k v =
     (sim i j \<and>
      (if length (es ! i) \<le> length (es ! j) then k = es ! j \<and> v = es ! i
       else k = es ! i \<and> v = es ! j))"

text \<open>The entities of a table before sorting: the stripped sides of all matches of all rows,
  without the empty string.\<close>

definition row_entities :: "dataframe \<Rightarrow> string \<Rightarrow> string set" where
  "row_entities df column =
     Set.filter (\<lambda>e. e \<noteq> [])
       (set (concat (map (\<lambda>row. match_entities (fillna_str (row column))) (df_rows df))))"

section \<open>Strings of Unicode code points and \<open>str.lower\<close>\<close>
















section \<open>Graphs (networkx) and the filtered network (visualizer.py)\<close>

text \<open>
  A \<open>networkx.Graph\<close> holds two dictionaries: \<open>_node\<close> from a node to its attributes and
  \<open>_adj\<close> from a node to the dictionary of its neighbours, each with the attributes of
  the edge. The graph is undirected: an edge is entered under both of its ends. The
  nodes are of a type \<open>'n\<close> and the values of the attributes of a type \<open>'v\<close>: in the graph
  that is built from a table both are strings, and the keyword search reads the labels as
  strings of Unicode code points.
\<close>

type_synonym 'v attrs = "(string, 'v) dict"

record ('n, 'v) graph =
  g_node :: "('n, 'v attrs) dict"
  g_adj :: "('n, ('n, 'v attrs) dict) dict"

definition empty_graph :: "('n, 'v) graph" where
  "empty_graph = \<lparr>g_node = [], g_adj = []\<rparr>"

definition nodes_of :: "('n, 'v) graph \<Rightarrow> 'n list" where
  "nodes_of G = map fst (g_node G)"

definition has_node :: "('n, 'v) graph \<Rightarrow> 'n \<Rightarrow> bool" where
  "has_node G n = (n \<in> set (nodes_of G))"

definition adj_of :: "('n, 'v) graph \<Rightarrow> 'n \<Rightarrow> ('n, 'v attrs) dict" where
  "adj_of G n = (case map_of (g_adj G) n of None \<Rightarrow> [] | Some nbrs \<Rightarrow> nbrs)"

definition neighbors :: "('n, 'v) graph \<Rightarrow> 'n \<Rightarrow> 'n list" where
  "neighbors G n = map fst (adj_of G n)"

definition has_edge :: "('n, 'v) graph \<Rightarrow> 'n \<Rightarrow> 'n \<Rightarrow> bool" where
  "has_edge G u v = (v \<in> set (neighbors G u))"

definition edge_attrs :: "('n, 'v) graph \<Rightarrow> 'n \<Rightarrow> 'n \<Rightarrow> 'v attrs option" where
  "edge_attrs G u v = map_of (adj_of G u) v"

text \<open>\<open>d.update(attr)\<close> and \<open>d.get(k, default)\<close>.\<close>

definition dict_update :: "('k, 'v) dict \<Rightarrow> ('k, 'v) dict \<Rightarrow> ('k, 'v) dict" where
  "dict_update d attr = foldl (\<lambda>d (k, v). AList.update k v d) d attr"

definition dict_get :: "('k, 'v) dict \<Rightarrow> 'k \<Rightarrow> 'v \<Rightarrow> 'v" where
  "dict_get d k dflt = (case map_of d k of None \<Rightarrow> dflt | Some v \<Rightarrow> v)"

text \<open>\<open>Graph.add_node(n, **attr)\<close>: a new node gets an empty neighbour dictionary and the
  attributes; the attributes of an old node are updated.\<close>

definition add_node :: "('n, 'v) graph \<Rightarrow> 'n \<Rightarrow> 'v attrs \<Rightarrow> ('n, 'v) graph" where
  "add_node G n attr =
     (if \<not> has_node G n
      then G\<lparr>g_adj := AList.update n [] (g_adj G),
             g_node := AList.update n (dict_update [] attr) (g_node G)\<rparr>
      else G\<lparr>g_node := AList.update n (dict_update (dict_get (g_node G) n []) attr) (g_node G)\<rparr>)"

text \<open>\<open>Graph.add_edge(u, v, **attr)\<close>: both ends are made nodes when they are not, the
  attributes of the edge are updated, and the edge is entered under both ends.\<close>

definition ensure_node :: "('n, 'v) graph \<Rightarrow> 'n \<Rightarrow> ('n, 'v) graph" where
  "ensure_node G n =
     (if \<not> has_node G n
      then G\<lparr>g_adj := AList.update n [] (g_adj G), g_node := AList.update n [] (g_node G)\<rparr>
      else G)"

definition add_edge ::
  "('n, 'v) graph \<Rightarrow> 'n \<Rightarrow> 'n \<Rightarrow> 'v attrs \<Rightarrow> ('n, 'v) graph" where
  "add_edge G u v attr =
     (let G1 = ensure_node G u;
          G2 = ensure_node G1 v;
          datadict = dict_update (dict_get (adj_of G2 u) v []) attr;
          G3 = G2\<lparr>g_adj := AList.update u (AList.update v datadict (adj_of G2 u)) (g_adj G2)\<rparr>
      in G3\<lparr>g_adj := AList.update v (AList.update u datadict (adj_of G3 v)) (g_adj G3)\<rparr>)"


text \<open>
  The invariant of the class \<open>networkx.Graph\<close> that the search relies on: the keys of
  \<open>_adj\<close> and all neighbours are nodes.
\<close>

definition wf_graph :: "('n, 'v) graph \<Rightarrow> bool" where
  "wf_graph G =
     (\<forall>(n, nbrs) \<in> set (g_adj G).
        n \<in> set (nodes_of G) \<and> (\<forall>(m, d) \<in> set nbrs. m \<in> set (nodes_of G)))"

text \<open>\<open>str(row.get(column, default))\<close>.\<close>

definition row_get_str :: "dataframe \<Rightarrow> (string \<Rightarrow> cell) \<Rightarrow> string \<Rightarrow> string \<Rightarrow> string" where
  "row_get_str df row column dflt =
     (if column \<in> set (df_columns df) then str_cell (row column) else dflt)"

text \<open>
  The loop of \<open>create_filtered_network\<close> that builds the graph (visualizer.py lines 58 to
  77). \<open>accepted\<close> is the test of line 71 to 73 on the two stripped sides of a match.
\<close>

definition accepted :: "'c list list \<Rightarrow> 'c list \<Rightarrow> 'c list \<Rightarrow> bool" where
  "accepted exclude_entities entity_a entity_b =
     (entity_a \<noteq> [] \<and> entity_b \<noteq> [] \<and>
      \<not> (\<exists>exc \<in> set exclude_entities. str_in exc entity_a) \<and>
      \<not> (\<exists>exc \<in> set exclude_entities. str_in exc entity_b))"

definition add_match ::
  "'c list list \<Rightarrow> 'c list \<Rightarrow> ('c list, 'c list) graph \<Rightarrow> 'c list \<times> 'c list \<Rightarrow>
   ('c list, 'c list) graph" where
  "add_match exclude_entities source G m =
     (case m of (entity_a, entity_b) \<Rightarrow>
        if accepted exclude_entities entity_a entity_b
        then add_edge
               (add_node (add_node G entity_a [(''label'', entity_a)])
                  entity_b [(''label'', entity_b)])
               entity_a entity_b [(''title'', source)]
        else G)"

definition add_row ::
  "dataframe \<Rightarrow> string list \<Rightarrow> (string, string) graph \<Rightarrow> (string \<Rightarrow> cell) \<Rightarrow>
   (string, string) graph" where
  "add_row df exclude_entities G row =
     (let value = row_get_str df row answer_column [];
          source = row_get_str df row ''Title'' ''Unknown''
      in foldl (add_match exclude_entities source) G (extract_pairs value))"

text \<open>\<open>exclude_entities or []\<close>, for the optional argument.\<close>

definition exclusion_list :: "string list option \<Rightarrow> string list" where
  "exclusion_list exclude_entities = (case exclude_entities of None \<Rightarrow> [] | Some e \<Rightarrow> e)"

definition build_filtered_graph ::
  "dataframe \<Rightarrow> string list option \<Rightarrow> (string, string) graph" where
  "build_filtered_graph df exclude_entities =
     foldl (add_row df (exclusion_list exclude_entities)) empty_graph (df_rows df)"

text \<open>
  \<open>NetworkVisualizer._search_network\<close> on a graph whose labels are strings of code
  points. \<open>range(depth)\<close> is empty for a negative depth.
\<close>

definition label_of :: "'c list attrs \<Rightarrow> 'c list" where
  "label_of attr = dict_get attr ''label'' []"












text \<open>
  The triples (entity A, entity B, source label) that the loop of
  \<open>create_filtered_network\<close> meets, in its order: for every row the stripped pairs of the
  extraction cell, with the title of the row.
\<close>

definition extracted_triples :: "dataframe \<Rightarrow> (string \<times> string \<times> string) list" where
  "extracted_triples df =
     concat (map (\<lambda>row. map (\<lambda>(a, b). (a, b, row_get_str df row ''Title'' ''Unknown''))
                         (extract_pairs (row_get_str df row answer_column [])))
               (df_rows df))"

definition add_triple ::
  "'c list list \<Rightarrow> ('c list, 'c list) graph \<Rightarrow> 'c list \<times> 'c list \<times> 'c list \<Rightarrow>
   ('c list, 'c list) graph" where
  "add_triple exclude_entities G t =
     (case t of (entity_a, entity_b, source) \<Rightarrow>
        add_match exclude_entities source G (entity_a, entity_b))"



section \<open>Causal analysis (analyzer.py)\<close>

text \<open>
  One call of the language model, for the user text of the request: \<open>Inl msg\<close> when
  anything inside the \<open>try\<close> block of \<open>analyze_abstract\<close> raises an \<open>Exception\<close> (the request
  itself, an empty list of choices, a missing content), \<open>Inr content\<close> when the content of
  the first choice comes back. The model may answer two calls with the same text
  differently, so batch analysis takes one such function for each row index.
\<close>

type_synonym chat = "string \<Rightarrow> string + string"

text \<open>\<open>not abstract or pd.isna(abstract)\<close> on a cell.\<close>

fun no_abstract :: "cell \<Rightarrow> bool" where
  "no_abstract NaN = True"
| "no_abstract (Str s) = (s = [])"

definition analyze_abstract :: "chat \<Rightarrow> cell \<Rightarrow> string" where
  "analyze_abstract create abstract =
     (if no_abstract abstract then []
      else (case create (str_cell abstract) of
              Inr content \<Rightarrow> strip content
            | Inl e \<Rightarrow> []))"

text \<open>
  \<open>analyze_single_row\<close> reads \<open>row['Abstract']\<close>, which raises \<open>KeyError\<close> when the table
  has no such column. The progress counter and the printing have no part in the result.
\<close>

definition analyze_single_row ::
  "(nat \<Rightarrow> chat) \<Rightarrow> dataframe \<Rightarrow> nat \<Rightarrow> error + (nat \<times> string)" where
  "analyze_single_row client df index =
     (if ''Abstract'' \<notin> set (df_columns df) then Inl KeyError
      else let abstract = (df_rows df ! index) ''Abstract'' in
        Inr (index, if no_abstract abstract then []
                    else analyze_abstract (client index) abstract))"

text \<open>\<open>df.at[index, column] = value\<close>, for an index of the table.\<close>

definition set_cell :: "dataframe \<Rightarrow> nat \<Rightarrow> string \<Rightarrow> cell \<Rightarrow> dataframe" where
  "set_cell df index column v =
     df\<lparr>df_rows := (df_rows df)[index := (df_rows df ! index)(column := v)]\<rparr>"

text \<open>\<open>if 'Answer to Question 2' not in df.columns: df['Answer to Question 2'] = ""\<close>.\<close>

definition ensure_answer_column :: "dataframe \<Rightarrow> dataframe" where
  "ensure_answer_column df =
     (if answer_column \<notin> set (df_columns df)
      then df\<lparr>df_columns := df_columns df @ [answer_column],
              df_rows := map (\<lambda>row. row(answer_column := Str [])) (df_rows df)\<rparr>
      else df)"

text \<open>The row indices \<open>i >= start_row\<close>, for the default index 0, 1, ... of a table.\<close>

definition rows_to_process :: "dataframe \<Rightarrow> int \<Rightarrow> nat list" where
  "rows_to_process df start_row = filter (\<lambda>i. start_row \<le> int i) [0 ..< length (df_rows df)]"

text \<open>
  \<open>_batch_analyze_parallel\<close>. The workers only compute; the results are written by the
  loop over \<open>as_completed(futures)\<close> in the calling thread, in the order in which the
  futures complete. \<open>as_completed\<close> gives that order for the submitted rows. A future that
  raised gives the empty string for its row.
\<close>

definition batch_analyze_parallel ::
  "(nat \<Rightarrow> chat) \<Rightarrow> (nat list \<Rightarrow> nat list) \<Rightarrow> dataframe \<Rightarrow> nat list \<Rightarrow> dataframe" where
  "batch_analyze_parallel client as_completed df rows =
     foldl (\<lambda>df' i. (case analyze_single_row client df i of
                        Inr (index, result) \<Rightarrow> set_cell df' index answer_column (Str result)
                      | Inl e \<Rightarrow> set_cell df' i answer_column (Str [])))
       df (as_completed rows)"

text \<open>\<open>_batch_analyze_sequential\<close>: \<open>row['Abstract']\<close> is read outside of any \<open>try\<close>.\<close>

fun batch_analyze_sequential ::
  "(nat \<Rightarrow> chat) \<Rightarrow> dataframe \<Rightarrow> dataframe \<Rightarrow> nat list \<Rightarrow> error + dataframe" where
  "batch_analyze_sequential client df0 df [] = Inr df"
| "batch_analyze_sequential client df0 df (index # rows) =
     (if ''Abstract'' \<notin> set (df_columns df0) then Inl KeyError
      else batch_analyze_sequential client df0
             (set_cell df index answer_column
                (Str (analyze_abstract (client index) ((df_rows df0 ! index) ''Abstract''))))
             rows)"

definition batch_analyze ::
  "(nat \<Rightarrow> chat) \<Rightarrow> bool \<Rightarrow> (nat list \<Rightarrow> nat list) \<Rightarrow> dataframe \<Rightarrow> int \<Rightarrow> error + dataframe" where
  "batch_analyze client use_parallel as_completed df start_row =
     (let df1 = ensure_answer_column df;
          rows = rows_to_process df1 start_row
      in if rows = [] then Inr df1
         else if use_parallel then Inr (batch_analyze_parallel client as_completed df1 rows)
         else batch_analyze_sequential client df1 df1 rows)"

text \<open>
  A client whose every call succeeds with a blank answer, and a table of one article with
  an abstract.
\<close>

definition blank_client :: "nat \<Rightarrow> chat" where
  "blank_client i text = Inr '' ''"

definition one_article :: dataframe where
  "one_article = \<lparr>df_columns = [''Title'', ''Abstract''],
     df_rows = [(\<lambda>c. if c = ''Title'' then Str ''T1'' else Str ''Gene1 activates Protein2.'')]\<rparr>"

text \<open>The result of batch analysis for one row, and the table that batch analysis gives.\<close>

definition row_result :: "(nat \<Rightarrow> chat) \<Rightarrow> dataframe \<Rightarrow> nat \<Rightarrow> string" where
  "row_result client df i = analyze_abstract (client i) ((df_rows df ! i) ''Abstract'')"

definition analyzed :: "(nat \<Rightarrow> chat) \<Rightarrow> dataframe \<Rightarrow> int \<Rightarrow> dataframe" where
  "analyzed client df start_row =
     (ensure_answer_column df)\<lparr>df_rows :=
        map (\<lambda>i. if start_row \<le> int i
                  then (df_rows (ensure_answer_column df) ! i)
                         (answer_column := Str (row_result client df i))
                  else df_rows (ensure_answer_column df) ! i)
          [0 ..< length (df_rows df)]\<rparr>"

text \<open>
  A table of three articles, the second without abstract, and a client whose call for the
  third row fails.
\<close>

definition flaky_client :: "nat \<Rightarrow> chat" where
  "flaky_client i text = (if i = 2 then Inl ''timeout'' else Inr '' (A, B) '')"

definition three_articles :: dataframe where
  "three_articles = \<lparr>df_columns = [''Title'', ''Abstract''],
     df_rows = [(\<lambda>c. Str ''x''), (\<lambda>c. if c = ''Abstract'' then NaN else Str ''t''),
                (\<lambda>c. Str ''y'')]\<rparr>"

section \<open>The pipeline (core.py)\<close>

text \<open>
  The dictionary \<open>results\<close> of \<open>build_knowledge_graph\<close> has a fixed set of keys: \<open>keyword\<close>,
  \<open>files\<close> and \<open>statistics\<close> from the start (line 72), and \<open>entities\<close>, \<open>node_names\<close>,
  \<open>ai_summary\<close> and \<open>error\<close> once they are set. A file name may be \<open>None\<close>. The statistics
  are counts, and the dictionary of network statistics, of a type \<open>'s\<close> left open.
\<close>

datatype 's stat = Count int | Network_stats 's

record 's results =
  r_keyword :: string
  r_files :: "(string, string option) dict"
  r_statistics :: "(string, 's stat) dict"
  r_entities :: "string list option"
  r_node_names :: "string list option"
  r_ai_summary :: "string option"
  r_error :: "string option"

definition init_results :: "string \<Rightarrow> 's results" where
  "init_results kw =
     \<lparr>r_keyword = kw, r_files = [], r_statistics = [], r_entities = None, r_node_names = None,
      r_ai_summary = None, r_error = None\<rparr>"

text \<open>
  What the calls of one run of the pipeline do. Each call either raises an \<open>Exception\<close>,
  \<open>Inl\<close> with its message \<open>str(e)\<close>, or returns, \<open>Inr\<close> with what the orchestration reads from
  the returned value: for the search the length of the table, whether it is empty, and
  the file name; for entity processing the entities and the size of the similarity map;
  for the filtered network the file name and the node names.
\<close>

record 's outcomes =
  o_search_and_save :: "string + (nat \<times> bool \<times> string option)"
  o_batch_analyze :: "string + unit"
  o_save_results :: "string + string"
  o_process_entities :: "string + (string list \<times> nat)"
  o_save_processed_data :: "string + string"
  o_create_full_network :: "string + string"
  o_create_filtered_network :: "string + (string \<times> string list)"
  o_analyze_network_structure :: "string + 's"
  o_generate_summary :: "string + string"
  o_generate_full_report :: "string + string"
  o_save_results_json :: "string + string"

text \<open>
  A step of the \<open>try\<close> block on the dictionary: it goes on, it returns the dictionary, or
  it raises; the dictionary is mutable, so what was stored before a \<open>raise\<close> stays.
\<close>

datatype 'a step = Next 'a | Return 'a | Raise string 'a

definition set_file :: "string \<Rightarrow> string option \<Rightarrow> 's results \<Rightarrow> 's results" where
  "set_file k v r = r\<lparr>r_files := AList.update k v (r_files r)\<rparr>"

definition set_stat :: "string \<Rightarrow> 's stat \<Rightarrow> 's results \<Rightarrow> 's results" where
  "set_stat k v r = r\<lparr>r_statistics := AList.update k v (r_statistics r)\<rparr>"

text \<open>Lines 77 to 83.\<close>

definition step_search :: "'s outcomes \<Rightarrow> 's results \<Rightarrow> 's results step" where
  "step_search oc r =
     (case o_search_and_save oc of
        Inl e \<Rightarrow> Raise e r
      | Inr (n, is_empty, search_file) \<Rightarrow>
          let r1 = set_file ''search_results'' search_file r;
              r2 = set_stat ''total_articles'' (Count (int n)) r1
          in if is_empty then Return r2 else Next r2)"

text \<open>Lines 87 to 89.\<close>

definition step_analyze :: "'s outcomes \<Rightarrow> 's results \<Rightarrow> 's results step" where
  "step_analyze oc r =
     (case o_batch_analyze oc of
        Inl e \<Rightarrow> Raise e r
      | Inr u \<Rightarrow>
          (case o_save_results oc of
             Inl e \<Rightarrow> Raise e r
           | Inr causal_file \<Rightarrow> Next (set_file ''causal_analysis'' (Some causal_file) r)))"

text \<open>Lines 93 to 99.\<close>

definition step_process :: "'s outcomes \<Rightarrow> 's results \<Rightarrow> 's results step" where
  "step_process oc r =
     (case o_process_entities oc of
        Inl e \<Rightarrow> Raise e r
      | Inr (ents, n_similar) \<Rightarrow>
          (case o_save_processed_data oc of
             Inl e \<Rightarrow> Raise e r
           | Inr processed_file \<Rightarrow>
               let r1 = set_file ''processed_data'' (Some processed_file) r;
                   r2 = r1\<lparr>r_entities := Some ents\<rparr>;
                   r3 = set_stat ''total_entities'' (Count (int (length ents))) r2
               in Next (set_stat ''unique_entities''
                          (Count (int (length ents) - int n_similar)) r3)))"

text \<open>Lines 103 to 114.\<close>

definition step_visualize :: "'s outcomes \<Rightarrow> 's results \<Rightarrow> 's results step" where
  "step_visualize oc r =
     (case o_create_full_network oc of
        Inl e \<Rightarrow> Raise e r
      | Inr full_network_file \<Rightarrow>
          let r1 = set_file ''full_network'' (Some full_network_file) r in
          (case o_create_filtered_network oc of
             Inl e \<Rightarrow> Raise e r1
           | Inr (filtered_network_file, names) \<Rightarrow>
               let r2 = set_file ''filtered_network'' (Some filtered_network_file) r1;
                   r3 = r2\<lparr>r_node_names := Some names\<rparr>
               in (case o_analyze_network_structure oc of
                     Inl e \<Rightarrow> Raise e r3
                   | Inr network_stats \<Rightarrow>
                       Next (set_stat ''network_stats'' (Network_stats network_stats) r3))))"

text \<open>Lines 118 to 139.\<close>

definition step_report :: "'s outcomes \<Rightarrow> 's results \<Rightarrow> 's results step" where
  "step_report oc r =
     (case o_generate_summary oc of
        Inl e \<Rightarrow> Raise e r
      | Inr summary \<Rightarrow>
          let r1 = r\<lparr>r_ai_summary := Some summary\<rparr> in
          (case o_generate_full_report oc of
             Inl e \<Rightarrow> Raise e r1
           | Inr report_file \<Rightarrow>
               let r2 = set_file ''report'' (Some report_file) r1 in
               (case o_save_results_json oc of
                  Inl e \<Rightarrow> Raise e r2
                | Inr json_file \<Rightarrow> Return (set_file ''json_results'' (Some json_file) r2))))"

definition steps :: "'s outcomes \<Rightarrow> ('s results \<Rightarrow> 's results step) list" where
  "steps oc = [step_search oc, step_analyze oc, step_process oc, step_visualize oc, step_report oc]"

fun run :: "('a \<Rightarrow> 'a step) list \<Rightarrow> 'a \<Rightarrow> 'a step" where
  "run [] r = Next r"
| "run (s # ss) r =
     (case s r of Next r' \<Rightarrow> run ss r' | Return r' \<Rightarrow> Return r' | Raise e r' \<Rightarrow> Raise e r')"

text \<open>
  \<open>build_knowledge_graph\<close>: the \<open>try\<close> block, and the handler of lines 141 to 144, which
  stores the message under \<open>error\<close> and returns the dictionary. The \<open>finally\<close> clause only
  restores a setting of the configuration.
\<close>

definition build_knowledge_graph :: "'s outcomes \<Rightarrow> string \<Rightarrow> 's results" where
  "build_knowledge_graph oc kw =
     (case run (steps oc) (init_results kw) of
        Next r \<Rightarrow> r
      | Return r \<Rightarrow> r
      | Raise e r \<Rightarrow> r\<lparr>r_error := Some e\<rparr>)"

text \<open>
  A run in which the search finds three articles and the analysis of the abstracts
  raises.
\<close>

definition failing_run :: "unit outcomes" where
  "failing_run =
     \<lparr>o_search_and_save = Inr (3, False, Some ''out/k_pubmed_search_results.xlsx''),
      o_batch_analyze = Inl ''connection lost'',
      o_save_results = Inr ''a'', o_process_entities = Inr ([], 0),
      o_save_processed_data = Inr ''b'', o_create_full_network = Inr ''c'',
      o_create_filtered_network = Inr (''d'', []), o_analyze_network_structure = Inr (),
      o_generate_summary = Inr ''e'', o_generate_full_report = Inr ''f'',
      o_save_results_json = Inr ''g''\<rparr>"

text \<open>
  Every entry of the dictionary \<open>r\<close> is an entry of \<open>r'\<close>, with the same value.
\<close>

definition kept :: "'s results \<Rightarrow> 's results \<Rightarrow> bool" where
  "kept r r' =
     (r_keyword r' = r_keyword r \<and>
      (\<forall>k v. map_of (r_files r) k = Some v \<longrightarrow> map_of (r_files r') k = Some v) \<and>
      (\<forall>k v. map_of (r_statistics r) k = Some v \<longrightarrow> map_of (r_statistics r') k = Some v) \<and>
      (\<forall>v. r_entities r = Some v \<longrightarrow> r_entities r' = Some v) \<and>
      (\<forall>v. r_node_names r = Some v \<longrightarrow> r_node_names r' = Some v) \<and>
      (\<forall>v. r_ai_summary r = Some v \<longrightarrow> r_ai_summary r' = Some v))"

text \<open>
  Before step \<open>k\<close> of the \<open>try\<close> block the keys that the steps from \<open>k\<close> on write are not
  yet in the dictionary, and \<open>error\<close> is not set.
\<close>

definition fresh :: "nat \<Rightarrow> 's results \<Rightarrow> bool" where
  "fresh k r =
     (r_error r = None \<and>
      (k \<le> 0 \<longrightarrow> map_of (r_files r) ''search_results'' = None \<and>
                 map_of (r_statistics r) ''total_articles'' = None) \<and>
      (k \<le> 1 \<longrightarrow> map_of (r_files r) ''causal_analysis'' = None) \<and>
      (k \<le> 2 \<longrightarrow> map_of (r_files r) ''processed_data'' = None \<and>
                 map_of (r_statistics r) ''total_entities'' = None \<and>
                 map_of (r_statistics r) ''unique_entities'' = None \<and> r_entities r = None) \<and>
      (k \<le> 3 \<longrightarrow> map_of (r_files r) ''full_network'' = None \<and>
                 map_of (r_files r) ''filtered_network'' = None \<and>
                 map_of (r_statistics r) ''network_stats'' = None \<and> r_node_names r = None) \<and>
      (k \<le> 4 \<longrightarrow> map_of (r_files r) ''report'' = None \<and>
                 map_of (r_files r) ''json_results'' = None \<and> r_ai_summary r = None))"

text \<open>The value that \<open>build_knowledge_graph\<close> returns for the end of the \<open>try\<close> block.\<close>

definition finish :: "'s results step \<Rightarrow> 's results" where
  "finish st = (case st of Next r \<Rightarrow> r | Return r \<Rightarrow> r | Raise e r \<Rightarrow> r\<lparr>r_error := Some e\<rparr>)"

text \<open>The dictionary that a step ends with.\<close>

fun step_state :: "'a step \<Rightarrow> 'a" where
  "step_state (Next r) = r"
| "step_state (Return r) = r"
| "step_state (Raise e r) = r"

text \<open>
  A run in which every call returns until the report is written, and
  \<open>generate_full_report\<close> raises.
\<close>

definition report_failing_run :: "unit outcomes" where
  "report_failing_run =
     \<lparr>o_search_and_save = Inr (3, False, Some ''s.xlsx''),
      o_batch_analyze = Inr (),
      o_save_results = Inr ''c.xlsx'', o_process_entities = Inr ([''p53'', ''MDM2'', ''TP53''], 1),
      o_save_processed_data = Inr ''p.xlsx'', o_create_full_network = Inr ''full.html'',
      o_create_filtered_network = Inr (''part.html'', [''p53'', ''MDM2'']),
      o_analyze_network_structure = Inr (),
      o_generate_summary = Inr ''two genes'', o_generate_full_report = Inl ''disk full'',
      o_save_results_json = Inr ''r.json''\<rparr>"

section \<open>Properties of the regular expression match\<close>

lemma first_down_eq:
  "(\<forall>k<m. f k = None) \<Longrightarrow> first_down f lo m = (if lo \<le> m then f m else None)"
proof (induction m)
  case 0
  then show ?case by simp
next
  case (Suc m)
  then have "first_down f lo m = (if lo \<le> m then None else None)" by simp
  then show ?case by (simp split: option.splits)
qed

lemma first_down_top:
  "f m = Some r \<Longrightarrow> lo \<le> m \<Longrightarrow> first_down f lo m = Some r"
  by (cases m) auto

lemma first_down_next:
  "f (Suc m) = None \<Longrightarrow> lo \<le> m \<Longrightarrow> first_down f lo (Suc m) = first_down f lo m"
  by auto

lemma takeWhile_nth_holds: "k < length (takeWhile P s) \<Longrightarrow> P (s ! k)"
  by (metis nth_mem set_takeWhileD takeWhile_nth)

lemma capture_False: "capture False p = (\<lambda>x. x)"
  by (simp add: capture_def fun_eq_iff)

lemma rx_match_Lit_Cons:
  "rx_match ((Lit c, g) # es) (x # xs) =
     (if x = c then map_option (capture g [x]) (rx_match es xs) else None)"
  by simp

lemma rx_match_Lit_Nil: "rx_match ((Lit c, g) # es) [] = None"
  by simp

lemma rep_then_lit:
  assumes "\<not> P c"
  shows "rx_match ((Rep P n, g) # (Lit c, False) # es) s =
     (let d = length (takeWhile P s) in
      if d < n \<or> d = length s \<or> s ! d \<noteq> c then None
      else map_option (capture g (take d s)) (rx_match es (drop (Suc d) s)))"
proof -
  let ?d = "length (takeWhile P s)"
  let ?f = "\<lambda>k. map_option (capture g (take k s)) (rx_match ((Lit c, False) # es) (drop k s))"
  have low: "\<forall>k<?d. ?f k = None"
  proof (intro allI impI)
    fix k assume k: "k < ?d"
    then have "k < length s" using length_takeWhile_le[of P s] by linarith
    then have eq: "drop k s = s ! k # drop (Suc k) s" by (simp add: Cons_nth_drop_Suc)
    have "P (s ! k)" using k by (rule takeWhile_nth_holds)
    then have "s ! k \<noteq> c" using assms by auto
    then show "?f k = None" unfolding eq rx_match_Lit_Cons by simp
  qed
  have top: "?f ?d = (if ?d = length s \<or> s ! ?d \<noteq> c then None
      else map_option (capture g (take ?d s)) (rx_match es (drop (Suc ?d) s)))"
  proof (cases "?d = length s")
    case True
    then have "drop ?d s = []" by simp
    then show ?thesis using True unfolding rx_match_Lit_Nil by (simp only: rx_match_Lit_Nil) simp
  next
    case False
    then have lt: "?d < length s" using length_takeWhile_le[of P s] by linarith
    then have eq: "drop ?d s = s ! ?d # drop (Suc ?d) s" by (simp add: Cons_nth_drop_Suc)
    show ?thesis using False unfolding eq rx_match_Lit_Cons
      by (simp add: capture_False option.map_ident)
  qed
  have "rx_match ((Rep P n, g) # (Lit c, False) # es) s = first_down ?f n ?d"
    by (simp only: rx_match.simps)
  also have "\<dots> = (if n \<le> ?d then ?f ?d else None)"
    using low by (rule first_down_eq)
  finally show ?thesis
    unfolding top by (simp add: Let_def not_less)
qed

lemma isspace_not_paren: "isspace c \<Longrightarrow> c \<noteq> CHR '')''"
  by (auto simp: isspace_def)

lemma tail_match:
  "rx_match [(Rep (\<lambda>c. c \<noteq> CHR '')'') 1, True), (Lit CHR '')'', False)] u =
     (let d = length (takeWhile (\<lambda>c. c \<noteq> CHR '')'') u) in
      if d = 0 \<or> d = length u then None else Some ([take d u], drop (Suc d) u))"
proof -
  let ?P = "\<lambda>c. c \<noteq> CHR '')''"
  let ?d = "length (takeWhile ?P u)"
  have nth: "?d < length u \<Longrightarrow> u ! ?d = CHR '')''"
    using nth_length_takeWhile[of ?P u] by simp
  have le: "?d \<le> length u" by (rule length_takeWhile_le)
  have "\<not> ?P (CHR '')'')" by simp
  from rep_then_lit[of ?P "CHR '')''" 1 True "[]" u, OF this]
  have eq: "rx_match [(Rep ?P 1, True), (Lit CHR '')'', False)] u =
     (if ?d < 1 \<or> ?d = length u \<or> u ! ?d \<noteq> CHR '')'' then None
      else Some ([take ?d u], drop (Suc ?d) u))"
    by (simp only: Let_def rx_match.simps(1) option.map capture_def if_True fst_conv snd_conv)
  show ?thesis
  proof (cases "?d = 0 \<or> ?d = length u")
    case True
    then show ?thesis unfolding eq Let_def by auto
  next
    case False
    then have "?d < length u" using le by linarith
    then have "u ! ?d = CHR '')''" by (rule nth)
    then show ?thesis unfolding eq Let_def using False by simp
  qed
qed

lemma take_takeWhile_all:
  "k \<le> length (takeWhile P t) \<Longrightarrow> x \<in> set (take k t) \<Longrightarrow> P x"
proof (induction t arbitrary: k)
  case Nil
  then show ?case by simp
next
  case (Cons a t)
  show ?case
  proof (cases k)
    case 0
    then show ?thesis using Cons.prems by simp
  next
    case (Suc j)
    show ?thesis
    proof (cases "P a")
      case True
      then show ?thesis using Cons.prems Cons.IH[of j] Suc by auto
    next
      case False
      then show ?thesis using Cons.prems Suc by simp
    qed
  qed
qed

lemma takeWhile_drop_ws:
  assumes "k \<le> length (takeWhile isspace t)"
  shows "takeWhile (\<lambda>c. c \<noteq> CHR '')'') t = take k t @ takeWhile (\<lambda>c. c \<noteq> CHR '')'') (drop k t)"
proof -
  have "\<And>x. x \<in> set (take k t) \<Longrightarrow> x \<noteq> CHR '')''"
    using take_takeWhile_all[OF assms] isspace_not_paren by blast
  then have "takeWhile (\<lambda>c. c \<noteq> CHR '')'') (take k t @ drop k t)
     = take k t @ takeWhile (\<lambda>c. c \<noteq> CHR '')'') (drop k t)"
    by (rule takeWhile_append2)
  then show ?thesis by simp
qed

lemma ws_match:
  fixes t :: string
  defines "d \<equiv> length (takeWhile (\<lambda>c. c \<noteq> CHR '')'') t)"
  defines "w \<equiv> length (takeWhile isspace t)"
  shows "rx_match [(Rep isspace 0, False), (Rep (\<lambda>c. c \<noteq> CHR '')'') 1, True), (Lit CHR '')'', False)] t =
     (if d = 0 \<or> d = length t then None
      else Some ([take (d - (if w < d then w else w - 1)) (drop (if w < d then w else w - 1) t)],
                 drop (Suc d) t))"
proof -
  let ?tail = "[(Rep (\<lambda>c. c \<noteq> CHR '')'') 1, True), (Lit CHR '')'', False)]"
  let ?f = "\<lambda>k. map_option (capture False (take k t)) (rx_match ?tail (drop k t))"
  have fk: "?f k = (if d - k = 0 \<or> d = length t then None
                    else Some ([take (d - k) (drop k t)], drop (Suc d) t))" if "k \<le> w" for k
  proof -
    have split: "takeWhile (\<lambda>c. c \<noteq> CHR '')'') t
        = take k t @ takeWhile (\<lambda>c. c \<noteq> CHR '')'') (drop k t)"
      using that unfolding w_def by (rule takeWhile_drop_ws)
    have kt: "k \<le> length t" using that length_takeWhile_le[of isspace t] unfolding w_def by linarith
    have dk: "d = k + length (takeWhile (\<lambda>c. c \<noteq> CHR '')'') (drop k t))"
      unfolding d_def by (subst split) (simp add: kt min_absorb2)
    then have len: "length (takeWhile (\<lambda>c. c \<noteq> CHR '')'') (drop k t)) = d - k" by simp
    have dle: "d \<le> length t" unfolding d_def by (rule length_takeWhile_le)
    have e1: "(d - k = length (drop k t)) = (d = length t)" using kt dk dle by auto
    have e2: "drop (Suc (d - k)) (drop k t) = drop (Suc d) t" using dk by (simp add: add.commute)
    show ?thesis
      unfolding tail_match Let_def len e1 e2 capture_False option.map_ident by simp
  qed
  have wd: "w \<le> d"
  proof -
    have "takeWhile (\<lambda>c. c \<noteq> CHR '')'') t = take w t @ takeWhile (\<lambda>c. c \<noteq> CHR '')'') (drop w t)"
      unfolding w_def by (rule takeWhile_drop_ws) simp
    then have "d = length (take w t) + length (takeWhile (\<lambda>c. c \<noteq> CHR '')'') (drop w t))"
      unfolding d_def by (metis length_append)
    moreover have "length (take w t) = w" unfolding w_def
      using length_takeWhile_le[of isspace t] by simp
    ultimately show ?thesis by simp
  qed
  have start: "rx_match [(Rep isspace 0, False), (Rep (\<lambda>c. c \<noteq> CHR '')'') 1, True), (Lit CHR '')'', False)] t
      = first_down ?f 0 w"
    unfolding w_def by (simp only: rx_match.simps)
  show ?thesis
  proof (cases "d = 0 \<or> d = length t")
    case True
    have "\<forall>k<w. ?f k = None" using fk True by auto
    then have "first_down ?f 0 w = ?f w" using first_down_eq[of w ?f 0] by simp
    also have "\<dots> = None" using fk[of w] True by auto
    finally show ?thesis using True start by simp
  next
    case False
    show ?thesis
    proof (cases "w < d")
      case True
      have "?f w = Some ([take (d - w) (drop w t)], drop (Suc d) t)"
        using fk[of w] True False by simp
      then have "first_down ?f 0 w = Some ([take (d - w) (drop w t)], drop (Suc d) t)"
        by (rule first_down_top) simp
      then show ?thesis using True False start by simp
    next
      case nlt: False
      then have "w = d" using wd by simp
      then obtain w' where w': "w = Suc w'" using False by (cases w) auto
      have "?f (Suc w') = None" using fk[of w] \<open>w = d\<close> w' by simp
      then have "first_down ?f 0 (Suc w') = first_down ?f 0 w'"
        by (rule first_down_next) simp
      moreover have "?f w' = Some ([take (d - w') (drop w' t)], drop (Suc d) t)"
        using fk[of w'] w' \<open>w = d\<close> False by simp
      then have "first_down ?f 0 w' = Some ([take (d - w') (drop w' t)], drop (Suc d) t)"
        by (rule first_down_top) simp
      ultimately show ?thesis using nlt False start w' by simp
    qed
  qed
qed

lemma strip_ws_prefix: "\<forall>c\<in>set w. isspace c \<Longrightarrow> strip (w @ x) = strip x"
  by (simp add: strip_def dropWhile_append2)

lemma match_pair_Nil: "match_pair [] = group_at []"
  by (simp add: match_pair_def group_at_def pattern_def)

lemma match_pair_other: "c \<noteq> CHR ''('' \<Longrightarrow> match_pair (c # r) = group_at (c # r)"
  by (simp add: match_pair_def group_at_def pattern_def)

lemma group1_match:
  "rx_match ((Rep (\<lambda>c. c \<noteq> CHR '','') 1, True) # (Lit CHR '','', False) # es) r =
     (let m = length (takeWhile (\<lambda>c. c \<noteq> CHR '','') r) in
      if m = 0 \<or> m = length r then None
      else map_option (capture True (take m r)) (rx_match es (drop (Suc m) r)))"
proof -
  let ?P = "\<lambda>c. c \<noteq> CHR '',''"
  let ?m = "length (takeWhile ?P r)"
  have nth: "?m < length r \<Longrightarrow> r ! ?m = CHR '',''"
    using nth_length_takeWhile[of ?P r] by simp
  have le: "?m \<le> length r" by (rule length_takeWhile_le)
  have "\<not> ?P (CHR '','')" by simp
  from rep_then_lit[of ?P "CHR '',''" 1 True es r, OF this]
  have eq: "rx_match ((Rep ?P 1, True) # (Lit CHR '','', False) # es) r =
     (if ?m < 1 \<or> ?m = length r \<or> r ! ?m \<noteq> CHR '','' then None
      else map_option (capture True (take ?m r)) (rx_match es (drop (Suc ?m) r)))"
    by (simp only: Let_def)
  show ?thesis
  proof (cases "?m = 0 \<or> ?m = length r")
    case True
    then show ?thesis unfolding eq Let_def by auto
  next
    case False
    then have "?m < length r" using le by linarith
    then have "r ! ?m = CHR '',''" by (rule nth)
    then show ?thesis unfolding eq Let_def using False by simp
  qed
qed

lemma pattern_paren:
  "rx_match pattern (CHR ''('' # r) =
     rx_match [(Rep (\<lambda>c. c \<noteq> CHR '','') 1, True), (Lit CHR '','', False),
       (Rep isspace 0, False), (Rep (\<lambda>c. c \<noteq> CHR '')'') 1, True), (Lit CHR '')'', False)] r"
  unfolding pattern_def rx_match_Lit_Cons capture_False option.map_ident by simp

lemma ws_le_paren:
  "length (takeWhile isspace t) \<le> length (takeWhile (\<lambda>c. c \<noteq> CHR '')'') t)"
proof -
  let ?w = "length (takeWhile isspace t)"
  have "takeWhile (\<lambda>c. c \<noteq> CHR '')'') t = take ?w t @ takeWhile (\<lambda>c. c \<noteq> CHR '')'') (drop ?w t)"
    by (rule takeWhile_drop_ws) simp
  then have "length (takeWhile (\<lambda>c. c \<noteq> CHR '')'') t)
      = length (take ?w t) + length (takeWhile (\<lambda>c. c \<noteq> CHR '')'') (drop ?w t))"
    by (metis length_append)
  moreover have "length (take ?w t) = ?w"
    using length_takeWhile_le[of isspace t] by simp
  ultimately show ?thesis by simp
qed

lemma strip_take_ws:
  assumes "k \<le> length (takeWhile isspace t)" and "k \<le> d"
  shows "strip (take (d - k) (drop k t)) = strip (take d t)"
proof -
  have ws: "\<forall>x \<in> set (take k t). isspace x"
    using take_takeWhile_all[OF assms(1)] by blast
  have "take (k + (d - k)) t = take k t @ take (d - k) (drop k t)"
    by (rule take_add)
  then have "take d t = take k t @ take (d - k) (drop k t)"
    using assms(2) by simp
  then show ?thesis
    using strip_ws_prefix[OF ws] by simp
qed

lemma match_pair_paren: "match_pair (CHR ''('' # r) = group_at (CHR ''('' # r)"
proof -
  let ?ws = "[(Rep isspace 0, False), (Rep (\<lambda>c. c \<noteq> CHR '')'') 1, True), (Lit CHR '')'', False)]"
  let ?m = "length (takeWhile (\<lambda>c. c \<noteq> CHR '','') r)"
  let ?t = "drop (Suc ?m) r"
  let ?d = "length (takeWhile (\<lambda>c. c \<noteq> CHR '')'') ?t)"
  let ?w = "length (takeWhile isspace ?t)"
  let ?k = "if ?w < ?d then ?w else ?w - 1"
  have start: "rx_match pattern (CHR ''('' # r) =
     (if ?m = 0 \<or> ?m = length r then None
      else map_option (capture True (take ?m r)) (rx_match ?ws ?t))"
    unfolding pattern_paren group1_match Let_def by (rule refl)
  have grp: "group_at (CHR ''('' # r) =
     (if ?m = 0 \<or> ?m = length r then None
      else if ?d = 0 \<or> ?d = length ?t then None
      else Some ((strip (take ?m r), strip (take ?d ?t)), drop (Suc ?d) ?t))"
    by (simp add: group_at_def Let_def)
  show ?thesis
  proof (cases "?m = 0 \<or> ?m = length r")
    case True
    then have "rx_match pattern (CHR ''('' # r) = None" unfolding start by simp
    then have "match_pair (CHR ''('' # r) = None" by (simp add: match_pair_def)
    then show ?thesis unfolding grp using True by simp
  next
    case m_ok: False
    show ?thesis
    proof (cases "?d = 0 \<or> ?d = length ?t")
      case True
      then have "rx_match ?ws ?t = None" by (simp only: ws_match if_True)
      then have "rx_match pattern (CHR ''('' # r) = None" unfolding start by simp
      then have "match_pair (CHR ''('' # r) = None" by (simp add: match_pair_def)
      then show ?thesis unfolding grp using True by simp
    next
      case d_ok: False
      have "rx_match ?ws ?t = Some ([take (?d - ?k) (drop ?k ?t)], drop (Suc ?d) ?t)"
        using d_ok by (simp only: ws_match if_False)
      then have "rx_match pattern (CHR ''('' # r) =
          Some ([take ?m r, take (?d - ?k) (drop ?k ?t)], drop (Suc ?d) ?t)"
        unfolding start using m_ok by (simp add: capture_def)
      then have mp: "match_pair (CHR ''('' # r) =
          Some ((strip (take ?m r), strip (take (?d - ?k) (drop ?k ?t))), drop (Suc ?d) ?t)"
        by (simp add: match_pair_def)
      have kw: "?k \<le> ?w" by simp
      have wd: "?w \<le> ?d" by (rule ws_le_paren)
      have kd: "?k \<le> ?d" using kw wd by (rule le_trans)
      have "strip (take (?d - ?k) (drop ?k ?t)) = strip (take ?d ?t)"
        using kw kd by (rule strip_take_ws)
      then show ?thesis unfolding mp grp using m_ok d_ok by simp
    qed
  qed
qed

lemma match_pair_eq: "match_pair s = group_at s"
proof (cases s)
  case Nil
  then show ?thesis by (simp add: match_pair_Nil)
next
  case (Cons c r)
  then show ?thesis
    using match_pair_other[of c r] match_pair_paren[of r] by (cases "c = CHR ''(''") simp_all
qed

lemma split_at_first:
  fixes r :: string
  assumes "length (takeWhile P r) \<noteq> length r"
  shows "\<exists>x. r = takeWhile P r @ x # drop (Suc (length (takeWhile P r))) r \<and> \<not> P x"
proof -
  let ?m = "length (takeWhile P r)"
  have lt: "?m < length r" using assms length_takeWhile_le[of P r] by linarith
  have "r = take ?m r @ r ! ?m # drop (Suc ?m) r" using lt by (rule id_take_nth_drop)
  moreover have "take ?m r = takeWhile P r" by (rule takeWhile_eq_take[symmetric])
  moreover have "\<not> P (r ! ?m)" using lt by (rule nth_length_takeWhile)
  ultimately show ?thesis by metis
qed

lemma group_at_wf:
  assumes "group_at s = Some ((a, b), rest)"
  shows "wf_group s a b rest"
proof -
  obtain c r where s: "s = c # r" using assms by (cases s) (auto simp: group_at_def)
  have c: "c = CHR ''(''" using assms s by (auto simp: group_at_def split: if_splits)
  let ?Pc = "\<lambda>c. c \<noteq> CHR '',''"
  let ?Pp = "\<lambda>c. c \<noteq> CHR '')''"
  let ?m = "length (takeWhile ?Pc r)"
  let ?t = "drop (Suc ?m) r"
  let ?d = "length (takeWhile ?Pp ?t)"
  have grp: "group_at s =
     (if ?m = 0 \<or> ?m = length r then None
      else if ?d = 0 \<or> ?d = length ?t then None
      else Some ((strip (take ?m r), strip (take ?d ?t)), drop (Suc ?d) ?t))"
    unfolding s c by (simp add: group_at_def Let_def)
  have m_ok: "?m \<noteq> 0" "?m \<noteq> length r"
    using assms unfolding grp by (auto split: if_splits)
  have d_ok: "?d \<noteq> 0" "?d \<noteq> length ?t"
    using assms m_ok unfolding grp by (auto split: if_splits)
  have res: "a = strip (take ?m r)" "b = strip (take ?d ?t)" "rest = drop (Suc ?d) ?t"
    using assms m_ok d_ok unfolding grp by auto
  have ta: "take ?m r = takeWhile ?Pc r" by (rule takeWhile_eq_take[symmetric])
  have tb: "take ?d ?t = takeWhile ?Pp ?t" by (rule takeWhile_eq_take[symmetric])
  from split_at_first[of ?Pc r, OF m_ok(2)]
  have r: "r = takeWhile ?Pc r @ CHR '','' # ?t" by auto
  from split_at_first[of ?Pp ?t, OF d_ok(2)]
  have t: "?t = takeWhile ?Pp ?t @ CHR '')'' # rest" unfolding res(3) by auto
  have "s = CHR ''('' # takeWhile ?Pc r @ CHR '','' # [] @ takeWhile ?Pp ?t @ CHR '')'' # rest"
    unfolding s c using r t by simp
  moreover have "takeWhile ?Pc r \<noteq> []" using m_ok(1) by auto
  moreover have "CHR '','' \<notin> set (takeWhile ?Pc r)" using set_takeWhileD by fastforce
  moreover have "takeWhile ?Pp ?t \<noteq> []" using d_ok(1) by auto
  moreover have "CHR '')'' \<notin> set (takeWhile ?Pp ?t)" using set_takeWhileD by fastforce
  moreover have "a = strip (takeWhile ?Pc r)" using res(1) ta by simp
  moreover have "b = strip (takeWhile ?Pp ?t)" using res(2) tb by simp
  ultimately show ?thesis unfolding wf_group_def
    by (intro exI[of _ "takeWhile ?Pc r"] exI[of _ "[]"] exI[of _ "takeWhile ?Pp ?t"]) simp
qed

lemma takeWhile_until:
  "\<forall>x \<in> set xs. P x \<Longrightarrow> \<not> P y \<Longrightarrow> takeWhile P (xs @ y # ys) = xs"
  by (induction xs) auto

lemma wf_group_at:
  assumes "wf_group s a b rest"
  shows "group_at s = Some ((a, b), rest)"
proof -
  from assms obtain a0 w b0 where
    s: "s = CHR ''('' # a0 @ CHR '','' # w @ b0 @ CHR '')'' # rest"
    and a0: "a0 \<noteq> []" "CHR '','' \<notin> set a0"
    and w: "\<forall>c \<in> set w. isspace c"
    and b0: "b0 \<noteq> []" "CHR '')'' \<notin> set b0"
    and ab: "a = strip a0" "b = strip b0"
    unfolding wf_group_def by blast
  let ?Pc = "\<lambda>c. c \<noteq> CHR '',''"
  let ?Pp = "\<lambda>c. c \<noteq> CHR '')''"
  let ?r = "a0 @ CHR '','' # w @ b0 @ CHR '')'' # rest"
  let ?t = "(w @ b0) @ CHR '')'' # rest"
  have tw1: "takeWhile ?Pc ?r = a0"
    using a0(2) by (intro takeWhile_until) auto
  have wb: "\<forall>x \<in> set (w @ b0). ?Pp x"
    using w b0(2) isspace_not_paren by auto
  have tw2: "takeWhile ?Pp ?t = w @ b0"
    using wb by (intro takeWhile_until) auto
  have dr: "drop (Suc (length a0)) ?r = ?t" by simp
  have grp: "group_at s =
     (let m = length (takeWhile ?Pc ?r) in
      if m = 0 \<or> m = length ?r then None
      else let t = drop (Suc m) ?r; d = length (takeWhile ?Pp t) in
        if d = 0 \<or> d = length t then None
        else Some ((strip (take m ?r), strip (take d t)), drop (Suc d) t))"
    unfolding s by (simp add: group_at_def)
  have "group_at s = Some ((strip a0, strip (w @ b0)), rest)"
    unfolding grp tw1 Let_def dr tw2 using a0(1) b0(1) by simp
  then show ?thesis using ab strip_ws_prefix[OF w] by simp
qed

lemma match_pair_wf: "match_pair s = Some ((a, b), rest) \<longleftrightarrow> wf_group s a b rest"
  unfolding match_pair_eq using group_at_wf wf_group_at by blast

lemma wf_group_consumes:
  assumes "wf_group s a b rest"
  shows "\<exists>pre. pre \<noteq> [] \<and> s = pre @ rest"
proof -
  from assms obtain a0 w b0 where
    "s = CHR ''('' # a0 @ CHR '','' # w @ b0 @ CHR '')'' # rest"
    unfolding wf_group_def by blast
  then have "s = (CHR ''('' # a0 @ CHR '','' # w @ b0 @ [CHR '')'']) @ rest" by simp
  then show ?thesis by blast
qed

lemma wf_group_shorter: "wf_group s a b rest \<Longrightarrow> length rest < length s"
  using wf_group_consumes by fastforce

lemma extract_pairs_unfold:
  "extract_pairs s =
     (case match_pair s of
        Some (p, rest) \<Rightarrow> p # extract_pairs rest
      | None \<Rightarrow> (case s of [] \<Rightarrow> [] | c # cs \<Rightarrow> extract_pairs cs))"
proof (cases "rx_match pattern s")
  case None
  then have "match_pair s = None" by (simp add: match_pair_def)
  moreover have "findall pattern s = (case s of [] \<Rightarrow> [] | c # cs \<Rightarrow> findall pattern cs)"
    using findall.simps[of pattern s] by (simp add: None)
  ultimately show ?thesis by (simp add: extract_pairs_def split: list.splits)
next
  case (Some res)
  obtain gs r where res: "res = (gs, r)" by (cases res)
  have mp: "match_pair s = Some (stripped_pair gs, r)"
    using Some res by (simp add: match_pair_def)
  obtain a b where ab: "stripped_pair gs = (a, b)" by (cases "stripped_pair gs")
  have "wf_group s a b r" using mp ab match_pair_wf by simp
  then obtain pre where pre: "pre \<noteq> []" "s = pre @ r" using wf_group_consumes by blast
  have ne: "s \<noteq> []" using pre by simp
  have "length s - length r = length pre" using pre(2) by simp
  moreover have "1 \<le> length pre" using pre(1) by (cases pre) auto
  ultimately have "drop (max 1 (length s - length r)) s = r"
    using pre(2) by (simp add: max_absorb2)
  then have "findall pattern s = gs # findall pattern r"
    using findall.simps[of pattern s] by (simp add: Some res ne)
  then show ?thesis using mp by (simp add: extract_pairs_def)
qed

lemma groups_of_extract: "groups_of s (extract_pairs s)"
proof (induction "length s" arbitrary: s rule: less_induct)
  case less
  show ?case
  proof (cases "match_pair s")
    case None
    show ?thesis
    proof (cases s)
      case Nil
      then show ?thesis using None by (subst extract_pairs_unfold) (simp add: groups_of.stop)
    next
      case (Cons c cs)
      have "groups_of cs (extract_pairs cs)" using less Cons by simp
      moreover have "\<forall>a b rest. \<not> wf_group (c # cs) a b rest"
      proof (intro allI)
        fix a b rest
        show "\<not> wf_group (c # cs) a b rest"
          using None Cons match_pair_wf[of s a b rest] by simp
      qed
      ultimately have "groups_of (c # cs) (extract_pairs cs)" by (rule groups_of.skip[rotated])
      moreover have "extract_pairs s = extract_pairs cs"
        using None Cons by (subst extract_pairs_unfold) simp
      ultimately show ?thesis using Cons by simp
    qed
  next
    case (Some res)
    obtain a b rest where res: "res = ((a, b), rest)" by (cases res) auto
    have wf: "wf_group s a b rest" using Some res match_pair_wf by simp
    then have "length rest < length s" by (rule wf_group_shorter)
    then have "groups_of rest (extract_pairs rest)" by (rule less)
    with wf have "groups_of s ((a, b) # extract_pairs rest)" by (rule groups_of.here)
    moreover have "extract_pairs s = (a, b) # extract_pairs rest"
      using Some res by (subst extract_pairs_unfold) simp
    ultimately show ?thesis by simp
  qed
qed

lemma groups_of_unique: "groups_of s ps \<Longrightarrow> ps = extract_pairs s"
proof (induction rule: groups_of.induct)
  case stop
  show ?case by (subst extract_pairs_unfold) (simp add: match_pair_eq group_at_def)
next
  case (here s a b rest ps)
  then have "match_pair s = Some ((a, b), rest)" using match_pair_wf by simp
  then have "extract_pairs s = (a, b) # extract_pairs rest"
    by (subst extract_pairs_unfold) simp
  then show ?case using here by simp
next
  case (skip c s ps)
  have "match_pair (c # s) = None"
  proof (cases "match_pair (c # s)")
    case None
    then show ?thesis .
  next
    case (Some res)
    obtain a b rest where "res = ((a, b), rest)" by (cases res) auto
    then have "wf_group (c # s) a b rest" using Some match_pair_wf by simp
    then show ?thesis using skip by blast
  qed
  then have "extract_pairs (c # s) = extract_pairs s"
    by (subst extract_pairs_unfold) simp
  then show ?case using skip by simp
qed

lemma no_group_empty:
  "(\<forall>i a b rest. \<not> wf_group (drop i s) a b rest) \<Longrightarrow> extract_pairs s = []"
proof (induction s)
  case Nil
  show ?case by (subst extract_pairs_unfold) (simp add: match_pair_eq group_at_def)
next
  case (Cons c s)
  have "\<forall>i a b rest. \<not> wf_group (drop i s) a b rest"
  proof (intro allI)
    fix i a b rest
    show "\<not> wf_group (drop i s) a b rest" using Cons.prems[rule_format, of "Suc i" a b rest] by simp
  qed
  then have ih: "extract_pairs s = []" by (rule Cons.IH)
  have "match_pair (c # s) = None"
  proof (cases "match_pair (c # s)")
    case None
    then show ?thesis .
  next
    case (Some res)
    obtain a b rest where "res = ((a, b), rest)" by (cases res) auto
    then have "wf_group (drop 0 (c # s)) a b rest" using Some match_pair_wf by simp
    then show ?thesis using Cons.prems by blast
  qed
  then show ?case using ih by (subst extract_pairs_unfold) simp
qed

lemma empty_no_group:
  "extract_pairs s = [] \<Longrightarrow> \<not> wf_group (drop i s) a b rest"
proof (induction s arbitrary: i)
  case Nil
  show ?case by (simp add: wf_group_def)
next
  case (Cons c s)
  have unf: "extract_pairs (c # s) =
     (case match_pair (c # s) of
        Some (p, rest) \<Rightarrow> p # extract_pairs rest
      | None \<Rightarrow> extract_pairs s)"
    by (subst extract_pairs_unfold) (simp split: option.splits)
  have none: "match_pair (c # s) = None"
    using Cons.prems unf by (cases "match_pair (c # s)") auto
  then have tl: "extract_pairs s = []" using Cons.prems unf by simp
  show ?case
  proof (cases i)
    case 0
    have "match_pair (c # s) \<noteq> Some ((a, b), rest)" using none by simp
    then show ?thesis using 0 match_pair_wf[of "c # s" a b rest] by simp
  next
    case (Suc j)
    then show ?thesis using Cons.IH[OF tl, of j] by simp
  qed
qed

section \<open>Properties of entity processing\<close>

lemma update_entry:
  "(k', v') \<in> set (AList.update k v al) \<Longrightarrow> (k' = k \<and> v' = v) \<or> (k', v') \<in> set al"
  by (induction al) (auto split: if_splits)

lemma update_key_in: "k \<in> fst ` set (AList.update k v al)"
  by (induction al) auto

lemma update_keys_mono: "k' \<in> fst ` set al \<Longrightarrow> k' \<in> fst ` set (AList.update k v al)"
  by (induction al) (auto split: if_splits)

lemma index_pairs_bounds: "(i, j) \<in> set (index_pairs n) \<longleftrightarrow> i < j \<and> j < n"
proof
  assume "(i, j) \<in> set (index_pairs n)"
  then show "i < j \<and> j < n" by (auto simp: index_pairs_def)
next
  assume ij: "i < j \<and> j < n"
  then have "\<exists>x \<in> {0 ..< n}. (i, j) \<in> Pair x ` {Suc x ..< n}"
    by (intro bexI[of _ i]) auto
  then show "(i, j) \<in> set (index_pairs n)" by (simp add: index_pairs_def)
qed

lemma similar_step_entry:
  assumes "(k, v) \<in> set (similar_step sim es d (i, j))"
  shows "(k, v) \<in> set d \<or> written_by sim es i j k v"
proof (cases "sim i j")
  case False
  then show ?thesis using assms by (simp add: similar_step_def)
next
  case True
  show ?thesis
  proof (cases "length (es ! i) \<le> length (es ! j)")
    case le: True
    then have "similar_step sim es d (i, j) = AList.update (es ! j) (es ! i) d"
      using True by (simp add: similar_step_def)
    then have "(k, v) \<in> set (AList.update (es ! j) (es ! i) d)" using assms by simp
    then have "(k = es ! j \<and> v = es ! i) \<or> (k, v) \<in> set d" by (rule update_entry)
    then show ?thesis using True le by (auto simp: written_by_def)
  next
    case gt: False
    then have "similar_step sim es d (i, j) = AList.update (es ! i) (es ! j) d"
      using True by (simp add: similar_step_def)
    then have "(k, v) \<in> set (AList.update (es ! i) (es ! j) d)" using assms by simp
    then have "(k = es ! i \<and> v = es ! j) \<or> (k, v) \<in> set d" by (rule update_entry)
    then show ?thesis using True gt by (auto simp: written_by_def)
  qed
qed

lemma foldl_step_entry:
  "(k, v) \<in> set (foldl (similar_step sim es) d ps) \<Longrightarrow>
   (k, v) \<in> set d \<or> (\<exists>i j. (i, j) \<in> set ps \<and> written_by sim es i j k v)"
proof (induction ps arbitrary: d)
  case Nil
  then show ?case by simp
next
  case (Cons p ps)
  obtain i j where p: "p = (i, j)" by (cases p)
  have "(k, v) \<in> set (foldl (similar_step sim es) (similar_step sim es d (i, j)) ps)"
    using Cons.prems p by simp
  then have "(k, v) \<in> set (similar_step sim es d (i, j)) \<or>
      (\<exists>i j. (i, j) \<in> set ps \<and> written_by sim es i j k v)"
    by (rule Cons.IH)
  then show ?case
  proof
    assume "(k, v) \<in> set (similar_step sim es d (i, j))"
    then have "(k, v) \<in> set d \<or> written_by sim es i j k v" by (rule similar_step_entry)
    then show ?thesis using p by auto
  next
    assume "\<exists>i j. (i, j) \<in> set ps \<and> written_by sim es i j k v"
    then show ?thesis by auto
  qed
qed

lemma similar_loop_origin:
  assumes "(k, v) \<in> set (similar_loop sim es)"
  shows "\<exists>i j. i < j \<and> j < length es \<and> written_by sim es i j k v"
proof -
  have "(k, v) \<in> set ([] :: (string, string) dict) \<or>
      (\<exists>i j. (i, j) \<in> set (index_pairs (length es)) \<and> written_by sim es i j k v)"
    using assms unfolding similar_loop_def by (rule foldl_step_entry)
  then obtain i j where "(i, j) \<in> set (index_pairs (length es))" "written_by sim es i j k v"
    by auto
  then show ?thesis using index_pairs_bounds[of i j "length es"] by blast
qed

lemma similar_loop_shorter:
  assumes "(k, v) \<in> set (similar_loop sim es)"
  shows "length v \<le> length k"
proof -
  obtain i j where "written_by sim es i j k v" using similar_loop_origin[OF assms] by blast
  then show ?thesis by (cases "length (es ! i) \<le> length (es ! j)") (simp_all add: written_by_def)
qed

lemma similar_loop_distinct:
  assumes "distinct es" and "(k, v) \<in> set (similar_loop sim es)"
  shows "k \<noteq> v"
proof -
  obtain i j where ij: "i < j" "j < length es" and w: "written_by sim es i j k v"
    using similar_loop_origin[OF assms(2)] by blast
  have "es ! i \<noteq> es ! j" using assms(1) ij by (simp add: nth_eq_iff_index_eq)
  then show ?thesis using w
    by (cases "length (es ! i) \<le> length (es ! j)") (auto simp: written_by_def)
qed

lemma similar_step_keys_mono:
  "k \<in> fst ` set d \<Longrightarrow> k \<in> fst ` set (similar_step sim es d p)"
  by (cases p) (simp add: similar_step_def update_keys_mono)

lemma foldl_step_keys_mono:
  "k \<in> fst ` set d \<Longrightarrow> k \<in> fst ` set (foldl (similar_step sim es) d ps)"
proof (induction ps arbitrary: d)
  case Nil
  then show ?case by simp
next
  case (Cons p ps)
  have "k \<in> fst ` set (similar_step sim es d p)" using Cons.prems by (rule similar_step_keys_mono)
  then have "k \<in> fst ` set (foldl (similar_step sim es) (similar_step sim es d p) ps)"
    by (rule Cons.IH)
  then show ?case by simp
qed

lemma similar_step_key:
  assumes "sim i j"
  shows "(if length (es ! i) \<le> length (es ! j) then es ! j else es ! i)
            \<in> fst ` set (similar_step sim es d (i, j))"
proof (cases "length (es ! i) \<le> length (es ! j)")
  case True
  then have "similar_step sim es d (i, j) = AList.update (es ! j) (es ! i) d"
    using assms by (simp add: similar_step_def)
  then show ?thesis using True update_key_in[of "es ! j" "es ! i" d] by simp
next
  case False
  then have "similar_step sim es d (i, j) = AList.update (es ! i) (es ! j) d"
    using assms by (simp add: similar_step_def)
  then show ?thesis using False update_key_in[of "es ! i" "es ! j" d] by simp
qed

lemma foldl_step_key:
  assumes "sim i j"
  shows "(i, j) \<in> set ps \<Longrightarrow>
    (if length (es ! i) \<le> length (es ! j) then es ! j else es ! i)
       \<in> fst ` set (foldl (similar_step sim es) d ps)"
proof (induction ps arbitrary: d)
  case Nil
  then show ?case by simp
next
  case (Cons p ps)
  show ?case
  proof (cases "p = (i, j)")
    case True
    have "(if length (es ! i) \<le> length (es ! j) then es ! j else es ! i)
        \<in> fst ` set (similar_step sim es d (i, j))"
      using assms by (rule similar_step_key)
    then have "(if length (es ! i) \<le> length (es ! j) then es ! j else es ! i)
        \<in> fst ` set (foldl (similar_step sim es) (similar_step sim es d (i, j)) ps)"
      by (rule foldl_step_keys_mono)
    then show ?thesis using True by simp
  next
    case False
    then have "(i, j) \<in> set ps" using Cons.prems by simp
    then have "(if length (es ! i) \<le> length (es ! j) then es ! j else es ! i)
        \<in> fst ` set (foldl (similar_step sim es) (similar_step sim es d p) ps)"
      by (rule Cons.IH)
    then show ?thesis by simp
  qed
qed

lemma similar_loop_key:
  assumes "i < j" "j < length es" "sim i j"
  shows "(if length (es ! i) \<le> length (es ! j) then es ! j else es ! i)
           \<in> fst ` set (similar_loop sim es)"
proof -
  have "(i, j) \<in> set (index_pairs (length es))"
    using assms(1,2) index_pairs_bounds[of i j "length es"] by simp
  then show ?thesis unfolding similar_loop_def using assms(3) foldl_step_key by blast
qed

lemma find_similar_entities_loop:
  "\<exists>sim. find_similar_entities exceeds model entities = similar_loop sim entities"
proof (cases "entities = []")
  case True
  then have "find_similar_entities exceeds model entities = similar_loop (\<lambda>i j. True) entities"
    by (simp add: find_similar_entities_def similar_loop_def index_pairs_def)
  then show ?thesis by blast
next
  case False
  then show ?thesis
    by (cases model)
      (auto simp: find_similar_entities_def find_similar_with_embeddings_def
        find_similar_with_strings_def)
qed

lemma chain_value:
  "find_similar_with_strings exceeds [''ab'', ''abc'', ''abcd''] =
     [(''abc'', ''ab''), (''abcd'', ''abc'')]"
  by (simp add: find_similar_with_strings_def similar_loop_def index_pairs_def
      similar_step_def is_similar_def lower_def lower_char_def upt_rec)

lemma strip_Nil: "strip [] = []"
  by (simp add: strip_def)

lemma strip_idem: "strip (strip s) = strip s"
proof -
  let ?t = "dropWhile isspace s"
  let ?v = "dropWhile isspace (rev ?t)"
  have strip: "strip s = rev ?v" by (simp add: strip_def)
  show ?thesis
  proof (cases "?v = []")
    case True
    then have "strip s = []" using strip by simp
    then show ?thesis by (simp add: strip_Nil)
  next
    case False
    have v_hd: "\<not> isspace (hd ?v)" using False by (rule hd_dropWhile)
    have "rev (takeWhile isspace (rev ?t) @ ?v) = rev (rev ?t)"
      by (simp only: takeWhile_dropWhile_id)
    then have t: "?t = rev ?v @ rev (takeWhile isspace (rev ?t))"
      by (simp only: rev_append rev_rev_ident)
    have "?v = []" if "?t = []"
      using that by (metis dropWhile.simps(1) rev.simps(1))
    then have t_ne: "?t \<noteq> []" using False by blast
    then have "\<not> isspace (hd ?t)" by (rule hd_dropWhile)
    moreover have "hd ?t = hd (rev ?v)" using False by (subst t) simp
    ultimately have "\<not> isspace (hd (rev ?v))" by simp
    then have d1: "dropWhile isspace (rev ?v) = rev ?v"
      using False by (cases "rev ?v") auto
    have d2: "dropWhile isspace ?v = ?v" by (rule dropWhile_idem)
    show ?thesis unfolding strip by (simp add: strip_def[of "rev ?v"] d1 d2)
  qed
qed

lemma stripped_pair_stripped:
  "stripped_pair gs = (a, b) \<Longrightarrow> strip a = a \<and> strip b = b"
  by (cases gs rule: stripped_pair.cases) (auto simp: strip_idem strip_Nil)

lemma match_entities_stripped:
  assumes "e \<in> set (match_entities v)"
  shows "strip e = e"
proof -
  from assms obtain a b where ab: "(a, b) \<in> set (extract_pairs v)" and e: "e = a \<or> e = b"
    unfolding match_entities_def by auto
  then obtain gs where "stripped_pair gs = (a, b)"
    unfolding extract_pairs_def by auto
  then have "strip a = a \<and> strip b = b" by (rule stripped_pair_stripped)
  then show ?thesis using e by auto
qed

lemma extract_entities_eq:
  "extract_entities df column =
     (if column \<notin> set (df_columns df) then [] else sorted_list_of_set (row_entities df column))"
  by (simp add: extract_entities_def row_entities_def Let_def)

lemma finite_row_entities: "finite (row_entities df column)"
  by (simp add: row_entities_def)

lemma set_extract_entities:
  "set (extract_entities df column) =
     (if column \<notin> set (df_columns df) then {} else row_entities df column)"
  by (simp add: extract_entities_eq finite_row_entities)

lemma extract_entities_strict_sorted: "sorted_wrt (<) (extract_entities df column)"
  by (simp add: extract_entities_eq)

lemma extract_entities_distinct: "distinct (extract_entities df column)"
  by (simp add: extract_entities_eq)

lemma extract_entities_sorted: "sorted (extract_entities df column)"
  by (simp add: extract_entities_eq)

lemma extract_entities_nonempty: "[] \<notin> set (extract_entities df column)"
  by (simp add: set_extract_entities row_entities_def)

lemma extract_entities_stripped:
  assumes "e \<in> set (extract_entities df column)"
  shows "strip e = e"
proof -
  have "e \<in> row_entities df column"
    using assms by (simp add: set_extract_entities split: if_splits)
  then obtain row where "e \<in> set (match_entities (fillna_str (row column)))"
    unfolding row_entities_def by auto
  then show ?thesis by (rule match_entities_stripped)
qed

lemma extract_entities_rows:
  assumes "df_columns df' = df_columns df" and "set (df_rows df') = set (df_rows df)"
  shows "extract_entities df' column = extract_entities df column"
proof -
  have "row_entities df' column = row_entities df column"
    using assms(2) by (simp add: row_entities_def)
  then show ?thesis using assms(1) by (simp add: extract_entities_eq)
qed

lemma written_by_shorter:
  assumes "written_by sim es i j k v"
  shows "length v \<le> length k \<and> (length v = length k \<longrightarrow> v = es ! i \<and> k = es ! j)"
  using assms by (cases "length (es ! i) \<le> length (es ! j)") (auto simp: written_by_def)

lemma similar_loop_canonical:
  assumes "(k, v) \<in> set (similar_loop sim es)"
  shows "length v \<le> length k \<and>
    (length v = length k \<longrightarrow> (\<exists>i j. i < j \<and> j < length es \<and> v = es ! i \<and> k = es ! j))"
proof -
  obtain i j where ij: "i < j" "j < length es" and w: "written_by sim es i j k v"
    using similar_loop_origin[OF assms] by blast
  show ?thesis using written_by_shorter[OF w] ij by blast
qed

lemma tie_value:
  "find_similar_with_strings exceeds [''Ab'', ''aB''] = [(''aB'', ''Ab'')]"
proof -
  have l1: "lower ''Ab'' = ''ab''" by code_simp
  have l2: "lower ''aB'' = ''ab''" by code_simp
  show ?thesis
    by (simp add: find_similar_with_strings_def similar_loop_def index_pairs_def
        similar_step_def is_similar_def l1 l2 upt_rec)
qed

section \<open>Properties of substring test and replacement\<close>

lemma str_in_iff: "str_in sub s \<longleftrightarrow> (\<exists>p q. s = p @ sub @ q)"
proof (induction s)
  case Nil
  then show ?case by auto
next
  case (Cons c cs)
  show ?case
  proof
    assume "str_in sub (c # cs)"
    then consider "prefix sub (c # cs)" | "str_in sub cs" by auto
    then show "\<exists>p q. c # cs = p @ sub @ q"
    proof cases
      case 1
      then obtain q where "c # cs = sub @ q" by (auto simp: prefix_def)
      then have "c # cs = [] @ sub @ q" by simp
      then show ?thesis by blast
    next
      case 2
      then obtain p q where "cs = p @ sub @ q" using Cons.IH by blast
      then have "c # cs = (c # p) @ sub @ q" by simp
      then show ?thesis by blast
    qed
  next
    assume "\<exists>p q. c # cs = p @ sub @ q"
    then obtain p q where pq: "c # cs = p @ sub @ q" by blast
    show "str_in sub (c # cs)"
    proof (cases p)
      case Nil
      then have "prefix sub (c # cs)" using pq by (simp add: prefix_def)
      then show ?thesis by simp
    next
      case (Cons x p')
      then have "cs = p' @ sub @ q" using pq by simp
      then have "str_in sub cs" using Cons.IH by blast
      then show ?thesis by simp
    qed
  qed
qed

lemma replace_Nil: "old \<noteq> [] \<Longrightarrow> replace old new [] = []"
  by (simp add: replace.simps)

lemma replace_Cons:
  "old \<noteq> [] \<Longrightarrow> replace old new (c # cs) =
     (if prefix old (c # cs) then new @ replace old new (drop (length old) (c # cs))
      else c # replace old new cs)"
  by (subst replace.simps) simp

lemma replace_no_occurrence:
  "old \<noteq> [] \<Longrightarrow> \<not> str_in old s \<Longrightarrow> replace old new s = s"
proof (induction s)
  case Nil
  then show ?case by (simp add: replace_Nil)
next
  case (Cons c cs)
  then have "\<not> prefix old (c # cs)" and "\<not> str_in old cs" by auto
  then show ?case using Cons by (simp add: replace_Cons)
qed

lemma replace_first_occurrence:
  assumes "old \<noteq> []"
  shows "(\<forall>i < length a. \<not> prefix old (drop i (a @ old @ b))) \<Longrightarrow>
    replace old new (a @ old @ b) = a @ new @ replace old new b"
proof (induction a)
  case Nil
  obtain c cs where old: "old = c # cs" using assms by (cases old) auto
  have "replace old new (old @ b) = new @ replace old new (drop (length old) (old @ b))"
    using replace_Cons[OF assms, of new c "cs @ b"] by (simp add: old)
  then show ?case by simp
next
  case (Cons x a)
  have "\<not> prefix old (drop 0 ((x # a) @ old @ b))" using Cons.prems by blast
  then have np: "\<not> prefix old (x # a @ old @ b)" by simp
  have "\<forall>i < length a. \<not> prefix old (drop i (a @ old @ b))"
  proof (intro allI impI)
    fix i assume "i < length a"
    then have "\<not> prefix old (drop (Suc i) ((x # a) @ old @ b))" using Cons.prems by auto
    then show "\<not> prefix old (drop i (a @ old @ b))" by simp
  qed
  then have "replace old new (a @ old @ b) = a @ new @ replace old new b" by (rule Cons.IH)
  then show ?case using np by (simp add: replace_Cons[OF assms])
qed

lemma replace_all_Nil: "replace_all [] cell_value = cell_value"
  by (simp add: replace_all_def)

lemma replace_all_Cons:
  "replace_all ((similar, original) # rest) cell_value =
     replace_all rest (replace similar original cell_value)"
  by (simp add: replace_all_def)

lemma substitute_empty: "substitute_similar_entities df [] column = Inr df"
  by (simp add: substitute_similar_entities_def)

lemma substitute_rows:
  assumes "similar_phrases \<noteq> []" and "column \<in> set (df_columns df)"
  shows "\<exists>df'. substitute_similar_entities df similar_phrases column = Inr df' \<and>
     df_columns df' = df_columns df \<and> length (df_rows df') = length (df_rows df) \<and>
     (\<forall>i < length (df_rows df).
        (df_rows df' ! i) column =
          Str (replace_all similar_phrases (str_cell ((df_rows df ! i) column))) \<and>
        (\<forall>c. c \<noteq> column \<longrightarrow> (df_rows df' ! i) c = (df_rows df ! i) c))"
proof (cases "df_rows df = []")
  case True
  then show ?thesis using assms by (simp add: substitute_similar_entities_def)
next
  case False
  then show ?thesis using assms by (simp add: substitute_similar_entities_def)
qed

lemma substitute_missing_column:
  assumes "similar_phrases \<noteq> []" and "column \<notin> set (df_columns df)" and "df_rows df \<noteq> []"
  shows "substitute_similar_entities df similar_phrases column = Inl KeyError"
  using assms by (simp add: substitute_similar_entities_def)

lemma replace_example: "replace ''abc'' ''ab'' ''(xabcx, yabc)'' = ''(xabx, yab)''"
  by code_simp

section \<open>Properties of graph construction\<close>

lemma adj_of_update:
  "adj_of (G\<lparr>g_adj := AList.update k nb (g_adj G)\<rparr>) x = (if x = k then nb else adj_of G x)"
  by (simp add: adj_of_def AList.update_conv')

lemma adj_of_g_node_update: "adj_of (G\<lparr>g_node := ns\<rparr>) x = adj_of G x"
  by (simp add: adj_of_def)

lemma nodes_of_g_adj_update: "nodes_of (G\<lparr>g_adj := a\<rparr>) = nodes_of G"
  by (simp add: nodes_of_def)

lemma set_nodes_of_update:
  "set (nodes_of (G\<lparr>g_node := AList.update n a (g_node G)\<rparr>)) = insert n (set (nodes_of G))"
  using AList.dom_update[of n a "g_node G"] by (simp add: nodes_of_def)

lemma has_edge_iff: "has_edge G u v \<longleftrightarrow> v \<in> fst ` set (adj_of G u)"
  by (simp add: has_edge_def neighbors_def)

lemma wf_graphI:
  assumes "\<And>n nb. (n, nb) \<in> set (g_adj G) \<Longrightarrow>
          n \<in> set (nodes_of G) \<and> (\<forall>m d. (m, d) \<in> set nb \<longrightarrow> m \<in> set (nodes_of G))"
  shows "wf_graph G"
  unfolding wf_graph_def using assms by fastforce

lemma wf_graphD:
  assumes "wf_graph G" and "(n, nb) \<in> set (g_adj G)"
  shows "n \<in> set (nodes_of G) \<and> (\<forall>m d. (m, d) \<in> set nb \<longrightarrow> m \<in> set (nodes_of G))"
  using assms unfolding wf_graph_def by fastforce

lemma wf_graph_adj:
  assumes "wf_graph G"
  shows "\<not> has_node G n \<Longrightarrow> adj_of G n = []"
    and "has_edge G u v \<Longrightarrow> has_node G u \<and> has_node G v"
proof -
  have key: "x \<in> set (nodes_of G) \<and> (\<forall>m d. (m, d) \<in> set nb \<longrightarrow> m \<in> set (nodes_of G))"
    if "map_of (g_adj G) x = Some nb" for x nb
  proof -
    have "(x, nb) \<in> set (g_adj G)" using that by (rule map_of_SomeD)
    then show ?thesis by (rule wf_graphD[OF assms])
  qed
  show "adj_of G n = []" if "\<not> has_node G n"
  proof (cases "map_of (g_adj G) n")
    case None
    then show ?thesis by (simp add: adj_of_def)
  next
    case (Some nb)
    then show ?thesis using key[OF Some] that by (simp add: has_node_def)
  qed
  show "has_node G u \<and> has_node G v" if "has_edge G u v"
  proof (cases "map_of (g_adj G) u")
    case None
    then show ?thesis using that by (simp add: has_edge_iff adj_of_def)
  next
    case (Some nb)
    then have "adj_of G u = nb" by (simp add: adj_of_def)
    then have "v \<in> fst ` set nb" using that by (simp add: has_edge_iff)
    then obtain d where "(v, d) \<in> set nb" by auto
    then show ?thesis using key[OF Some] unfolding has_node_def by blast
  qed
qed

lemma wf_empty_graph: "wf_graph empty_graph"
  by (simp add: wf_graph_def empty_graph_def)

text \<open>Writing a neighbour dictionary whose keys are nodes keeps the invariant.\<close>

lemma wf_graph_update_adj:
  assumes "wf_graph G" and "k \<in> set (nodes_of G)"
    and "\<And>m d. (m, d) \<in> set nb \<Longrightarrow> m \<in> set (nodes_of G)"
  shows "wf_graph (G\<lparr>g_adj := AList.update k nb (g_adj G)\<rparr>)"
proof (rule wf_graphI)
  fix n nb'
  assume "(n, nb') \<in> set (g_adj (G\<lparr>g_adj := AList.update k nb (g_adj G)\<rparr>))"
  then have "(n, nb') \<in> set (AList.update k nb (g_adj G))" by simp
  then have "(n = k \<and> nb' = nb) \<or> (n, nb') \<in> set (g_adj G)" by (rule update_entry)
  then have "n \<in> set (nodes_of G) \<and> (\<forall>m d. (m, d) \<in> set nb' \<longrightarrow> m \<in> set (nodes_of G))"
  proof
    assume "n = k \<and> nb' = nb"
    then show ?thesis using assms(2,3) by blast
  next
    assume "(n, nb') \<in> set (g_adj G)"
    then show ?thesis by (rule wf_graphD[OF assms(1)])
  qed
  then show "n \<in> set (nodes_of (G\<lparr>g_adj := AList.update k nb (g_adj G)\<rparr>)) \<and>
      (\<forall>m d. (m, d) \<in> set nb' \<longrightarrow> m \<in> set (nodes_of (G\<lparr>g_adj := AList.update k nb (g_adj G)\<rparr>)))"
    by (simp add: nodes_of_g_adj_update)
qed

lemma wf_graph_update_node:
  assumes "wf_graph G"
  shows "wf_graph (G\<lparr>g_node := AList.update n a (g_node G)\<rparr>)"
proof (rule wf_graphI)
  fix m nb
  assume "(m, nb) \<in> set (g_adj (G\<lparr>g_node := AList.update n a (g_node G)\<rparr>))"
  then have "(m, nb) \<in> set (g_adj G)" by simp
  then have "m \<in> set (nodes_of G) \<and> (\<forall>x d. (x, d) \<in> set nb \<longrightarrow> x \<in> set (nodes_of G))"
    by (rule wf_graphD[OF assms])
  then show "m \<in> set (nodes_of (G\<lparr>g_node := AList.update n a (g_node G)\<rparr>)) \<and>
      (\<forall>x d. (x, d) \<in> set nb \<longrightarrow> x \<in> set (nodes_of (G\<lparr>g_node := AList.update n a (g_node G)\<rparr>)))"
    unfolding set_nodes_of_update by blast
qed

lemma new_node_props:
  fixes a :: "'v attrs"
  assumes "wf_graph G" and "\<not> has_node G n"
  defines "G' \<equiv> G\<lparr>g_adj := AList.update n [] (g_adj G), g_node := AList.update n a (g_node G)\<rparr>"
  shows "wf_graph G'" and "set (nodes_of G') = insert n (set (nodes_of G))"
    and "adj_of G' x = adj_of G x"
proof -
  let ?G1 = "G\<lparr>g_node := AList.update n a (g_node G)\<rparr>"
  have G': "G' = ?G1\<lparr>g_adj := AList.update n [] (g_adj ?G1)\<rparr>"
    unfolding G'_def by simp
  have wf1: "wf_graph ?G1" using assms(1) by (rule wf_graph_update_node)
  have n1: "set (nodes_of ?G1) = insert n (set (nodes_of G))" by (rule set_nodes_of_update)
  have "n \<in> set (nodes_of ?G1)" using n1 by simp
  then show "wf_graph G'" unfolding G' using wf1 by (intro wf_graph_update_adj) simp_all
  show "set (nodes_of G') = insert n (set (nodes_of G))"
    unfolding G' nodes_of_g_adj_update by (rule n1)
  have "adj_of G n = []" using assms(1,2) by (rule wf_graph_adj(1))
  then show "adj_of G' x = adj_of G x"
    unfolding G' adj_of_update adj_of_g_node_update by simp
qed

lemma ensure_node_props:
  assumes "wf_graph G"
  shows "wf_graph (ensure_node G n)"
    and "set (nodes_of (ensure_node G n)) = insert n (set (nodes_of G))"
    and "adj_of (ensure_node G n) x = adj_of G x"
proof -
  show "wf_graph (ensure_node G n)"
    using assms new_node_props(1)[OF assms, of n "[]"] by (simp add: ensure_node_def)
  show "set (nodes_of (ensure_node G n)) = insert n (set (nodes_of G))"
    using new_node_props(2)[OF assms, of n "[]"] by (auto simp: ensure_node_def has_node_def)
  show "adj_of (ensure_node G n) x = adj_of G x"
    using new_node_props(3)[OF assms, of n "[]" x] by (simp add: ensure_node_def)
qed

lemma add_node_props:
  assumes "wf_graph G"
  shows "wf_graph (add_node G n a)"
    and "set (nodes_of (add_node G n a)) = insert n (set (nodes_of G))"
    and "adj_of (add_node G n a) x = adj_of G x"
proof -
  show "wf_graph (add_node G n a)"
    using new_node_props(1)[OF assms, of n "dict_update [] a"] wf_graph_update_node[OF assms]
    by (simp add: add_node_def)
  show "set (nodes_of (add_node G n a)) = insert n (set (nodes_of G))"
    using new_node_props(2)[OF assms, of n "dict_update [] a"]
    by (simp add: add_node_def set_nodes_of_update)
  show "adj_of (add_node G n a) x = adj_of G x"
    using new_node_props(3)[OF assms, of n "dict_update [] a" x]
    by (simp add: add_node_def adj_of_g_node_update)
qed

lemma add_node_label:
  "map_of (g_node (add_node G n [(''label'', l)])) n \<noteq> None \<and>
   label_of (dict_get (g_node (add_node G n [(''label'', l)])) n []) = l"
  by (simp add: add_node_def AList.update_conv' dict_get_def label_of_def dict_update_def)

lemma add_edge_props:
  assumes "wf_graph G"
  shows "wf_graph (add_edge G u v a)"
    and "set (nodes_of (add_edge G u v a)) = insert u (insert v (set (nodes_of G)))"
    and "has_edge (add_edge G u v a) x y \<longleftrightarrow>
          has_edge G x y \<or> (x = u \<and> y = v) \<or> (x = v \<and> y = u)"
    and "edge_attrs (add_edge G u v a) u v = Some (dict_update (dict_get (adj_of G u) v []) a)"
proof -
  define G2 where "G2 = ensure_node (ensure_node G u) v"
  define dd where "dd = dict_update (dict_get (adj_of G2 u) v []) a"
  define G3 where "G3 = G2\<lparr>g_adj := AList.update u (AList.update v dd (adj_of G2 u)) (g_adj G2)\<rparr>"
  define G4 where "G4 = G3\<lparr>g_adj := AList.update v (AList.update u dd (adj_of G3 v)) (g_adj G3)\<rparr>"
  have eq: "add_edge G u v a = G4"
    by (simp add: add_edge_def Let_def G4_def G3_def dd_def G2_def)
  have wf1: "wf_graph (ensure_node G u)" using assms by (rule ensure_node_props(1))
  have wf2: "wf_graph G2" unfolding G2_def using wf1 by (rule ensure_node_props(1))
  have n2: "set (nodes_of G2) = insert u (insert v (set (nodes_of G)))"
    unfolding G2_def
    using ensure_node_props(2)[OF wf1, of v] ensure_node_props(2)[OF assms, of u] by auto
  have a2: "adj_of G2 z = adj_of G z" for z
    unfolding G2_def
    using ensure_node_props(3)[OF wf1, of v z] ensure_node_props(3)[OF assms, of u z] by simp
  have nb2: "m \<in> set (nodes_of G2)" if "(m, d) \<in> set (adj_of G2 z)" for m d z
  proof -
    have "has_edge G2 z m" using that by (force simp: has_edge_iff)
    then show ?thesis using wf_graph_adj(2)[OF wf2] by (simp add: has_node_def)
  qed
  have a3: "adj_of G3 z = (if z = u then AList.update v dd (adj_of G2 u) else adj_of G2 z)" for z
    unfolding G3_def by (rule adj_of_update)
  have n3: "nodes_of G3 = nodes_of G2" unfolding G3_def by (rule nodes_of_g_adj_update)
  have wf3: "wf_graph G3"
    unfolding G3_def
  proof (rule wf_graph_update_adj[OF wf2])
    show "u \<in> set (nodes_of G2)" using n2 by simp
    fix m d assume "(m, d) \<in> set (AList.update v dd (adj_of G2 u))"
    then have "(m = v \<and> d = dd) \<or> (m, d) \<in> set (adj_of G2 u)" by (rule update_entry)
    then show "m \<in> set (nodes_of G2)" using n2 nb2 by auto
  qed
  have nb3: "m \<in> set (nodes_of G3)" if "(m, d) \<in> set (adj_of G3 z)" for m d z
  proof -
    have "has_edge G3 z m" using that by (force simp: has_edge_iff)
    then show ?thesis using wf_graph_adj(2)[OF wf3] by (simp add: has_node_def)
  qed
  have a4: "adj_of G4 z = (if z = v then AList.update u dd (adj_of G3 v) else adj_of G3 z)" for z
    unfolding G4_def by (rule adj_of_update)
  have n4: "nodes_of G4 = nodes_of G3" unfolding G4_def by (rule nodes_of_g_adj_update)
  have wf4: "wf_graph G4"
    unfolding G4_def
  proof (rule wf_graph_update_adj[OF wf3])
    show "v \<in> set (nodes_of G3)" using n2 n3 by simp
    fix m d assume "(m, d) \<in> set (AList.update u dd (adj_of G3 v))"
    then have "(m = u \<and> d = dd) \<or> (m, d) \<in> set (adj_of G3 v)" by (rule update_entry)
    then show "m \<in> set (nodes_of G3)" using n2 n3 nb3 by auto
  qed
  show "wf_graph (add_edge G u v a)" unfolding eq by (rule wf4)
  show "set (nodes_of (add_edge G u v a)) = insert u (insert v (set (nodes_of G)))"
    unfolding eq n4 n3 by (rule n2)
  have keys: "fst ` set (AList.update k d al) = insert k (fst ` set al)"
    for k :: 'k and d :: 'd and al
    using AList.dom_update[of k d al] by simp
  have k3: "fst ` set (adj_of G3 z) =
      (if z = u then insert v (fst ` set (adj_of G u)) else fst ` set (adj_of G z))" for z
    by (simp add: a3 keys a2)
  have k4: "fst ` set (adj_of G4 z) =
      (if z = v then insert u (fst ` set (adj_of G3 v)) else fst ` set (adj_of G3 z))" for z
    by (simp add: a4 keys)
  have "has_edge G4 x y \<longleftrightarrow> has_edge G x y \<or> (x = u \<and> y = v) \<or> (x = v \<and> y = u)"
    unfolding has_edge_iff k4 k3 by auto
  then show "has_edge (add_edge G u v a) x y \<longleftrightarrow>
          has_edge G x y \<or> (x = u \<and> y = v) \<or> (x = v \<and> y = u)"
    unfolding eq .
  have m3: "map_of (adj_of G3 u) v = Some dd" by (simp add: a3 AList.update_conv')
  have "map_of (adj_of G4 u) v = Some dd"
    using m3 by (simp add: a4 AList.update_conv')
  moreover have "dd = dict_update (dict_get (adj_of G u) v []) a"
    unfolding dd_def a2 ..
  ultimately show "edge_attrs (add_edge G u v a) u v =
      Some (dict_update (dict_get (adj_of G u) v []) a)"
    unfolding eq edge_attrs_def by simp
qed

lemma add_match_rejected:
  "\<not> accepted excl a b \<Longrightarrow> add_match excl src G (a, b) = G"
  by (simp add: add_match_def)

lemma add_match_props:
  assumes "wf_graph G"
  shows "wf_graph (add_match excl src G (a, b))"
    and "set (nodes_of (add_match excl src G (a, b))) =
          set (nodes_of G) \<union> (if accepted excl a b then {a, b} else {})"
    and "has_edge (add_match excl src G (a, b)) x y \<longleftrightarrow>
          has_edge G x y \<or> (accepted excl a b \<and> ((x = a \<and> y = b) \<or> (x = b \<and> y = a)))"
proof -
  define G1 where "G1 = add_node G a [(''label'', a)]"
  define G2 where "G2 = add_node G1 b [(''label'', b)]"
  have wf1: "wf_graph G1" unfolding G1_def using assms by (rule add_node_props(1))
  have wf2: "wf_graph G2" unfolding G2_def using wf1 by (rule add_node_props(1))
  have n2: "set (nodes_of G2) = insert b (insert a (set (nodes_of G)))"
    unfolding G2_def G1_def add_node_props(2)[OF wf1[unfolded G1_def]] add_node_props(2)[OF assms] ..
  have e2: "has_edge G2 x y \<longleftrightarrow> has_edge G x y" for x y
    unfolding G2_def G1_def has_edge_iff
      add_node_props(3)[OF wf1[unfolded G1_def]] add_node_props(3)[OF assms] ..
  have eq: "add_match excl src G (a, b) =
      (if accepted excl a b then add_edge G2 a b [(''title'', src)] else G)"
    by (simp add: add_match_def G2_def G1_def)
  show "wf_graph (add_match excl src G (a, b))"
    unfolding eq using assms add_edge_props(1)[OF wf2] by simp
  show "set (nodes_of (add_match excl src G (a, b))) =
          set (nodes_of G) \<union> (if accepted excl a b then {a, b} else {})"
    unfolding eq using add_edge_props(2)[OF wf2, of a b] n2 by auto
  show "has_edge (add_match excl src G (a, b)) x y \<longleftrightarrow>
          has_edge G x y \<or> (accepted excl a b \<and> ((x = a \<and> y = b) \<or> (x = b \<and> y = a)))"
    unfolding eq using add_edge_props(3)[OF wf2, of a b _ x y] e2 by auto
qed

lemma add_match_title:
  assumes "wf_graph G" and "accepted excl a b"
  shows "\<exists>attr. edge_attrs (add_match excl src G (a, b)) a b = Some attr \<and>
           map_of attr ''title'' = Some src"
proof -
  define G2 where "G2 = add_node (add_node G a [(''label'', a)]) b [(''label'', b)]"
  have wf2: "wf_graph G2" unfolding G2_def
    using assms(1) by (intro add_node_props(1))
  have "add_match excl src G (a, b) = add_edge G2 a b [(''title'', src)]"
    using assms(2) by (simp add: add_match_def G2_def)
  then have "edge_attrs (add_match excl src G (a, b)) a b =
      Some (dict_update (dict_get (adj_of G2 a) b []) [(''title'', src)])"
    using add_edge_props(4)[OF wf2] by simp
  moreover have "map_of (dict_update (dict_get (adj_of G2 a) b []) [(''title'', src)]) ''title''
      = Some src"
    by (simp add: dict_update_def AList.update_conv')
  ultimately show ?thesis by blast
qed

lemma foldl_add_triple:
  assumes "wf_graph G"
  shows "wf_graph (foldl (add_triple excl) G ts) \<and>
    set (nodes_of (foldl (add_triple excl) G ts)) =
      set (nodes_of G) \<union> {n. \<exists>a b src. (a, b, src) \<in> set ts \<and> accepted excl a b \<and> (n = a \<or> n = b)} \<and>
    (\<forall>x y. has_edge (foldl (add_triple excl) G ts) x y \<longleftrightarrow>
       has_edge G x y \<or>
       (\<exists>a b src. (a, b, src) \<in> set ts \<and> accepted excl a b \<and>
          ((x = a \<and> y = b) \<or> (x = b \<and> y = a))))"
  using assms
proof (induction ts arbitrary: G)
  case Nil
  then show ?case by simp
next
  case (Cons t ts)
  obtain a b src where t: "t = (a, b, src)" by (cases t)
  define G' where "G' = add_match excl src G (a, b)"
  have step: "add_triple excl G t = G'" by (simp add: add_triple_def t G'_def)
  have wf': "wf_graph G'" unfolding G'_def using Cons.prems by (rule add_match_props(1))
  have n': "set (nodes_of G') = set (nodes_of G) \<union> (if accepted excl a b then {a, b} else {})"
    unfolding G'_def using Cons.prems by (rule add_match_props(2))
  have e': "has_edge G' x y \<longleftrightarrow>
      has_edge G x y \<or> (accepted excl a b \<and> ((x = a \<and> y = b) \<or> (x = b \<and> y = a)))" for x y
    unfolding G'_def using Cons.prems by (rule add_match_props(3))
  note ih = Cons.IH[OF wf']
  have f: "foldl (add_triple excl) G (t # ts) = foldl (add_triple excl) G' ts"
    by (simp add: step)
  show ?case
  proof (intro conjI allI)
    show "wf_graph (foldl (add_triple excl) G (t # ts))" unfolding f using ih by blast
    have "set (nodes_of (foldl (add_triple excl) G' ts)) =
        set (nodes_of G') \<union>
        {n. \<exists>a b src. (a, b, src) \<in> set ts \<and> accepted excl a b \<and> (n = a \<or> n = b)}"
      using ih by blast
    moreover have "{n. \<exists>a b src. (a, b, src) \<in> set (t # ts) \<and> accepted excl a b \<and> (n = a \<or> n = b)} =
        (if accepted excl a b then {a, b} else {}) \<union>
        {n. \<exists>a b src. (a, b, src) \<in> set ts \<and> accepted excl a b \<and> (n = a \<or> n = b)}"
      unfolding t by auto
    ultimately show "set (nodes_of (foldl (add_triple excl) G (t # ts))) =
        set (nodes_of G) \<union>
        {n. \<exists>a b src. (a, b, src) \<in> set (t # ts) \<and> accepted excl a b \<and> (n = a \<or> n = b)}"
      unfolding f n' by (simp only: Un_assoc)
    fix x y
    have "has_edge (foldl (add_triple excl) G' ts) x y \<longleftrightarrow>
       has_edge G' x y \<or>
       (\<exists>a b src. (a, b, src) \<in> set ts \<and> accepted excl a b \<and>
          ((x = a \<and> y = b) \<or> (x = b \<and> y = a)))"
      using ih by blast
    moreover have "(\<exists>a b src. (a, b, src) \<in> set (t # ts) \<and> accepted excl a b \<and>
          ((x = a \<and> y = b) \<or> (x = b \<and> y = a))) \<longleftrightarrow>
        (accepted excl a b \<and> ((x = a \<and> y = b) \<or> (x = b \<and> y = a))) \<or>
        (\<exists>a b src. (a, b, src) \<in> set ts \<and> accepted excl a b \<and>
          ((x = a \<and> y = b) \<or> (x = b \<and> y = a)))"
      unfolding t by auto
    ultimately show "has_edge (foldl (add_triple excl) G (t # ts)) x y \<longleftrightarrow>
       has_edge G x y \<or>
       (\<exists>a b src. (a, b, src) \<in> set (t # ts) \<and> accepted excl a b \<and>
          ((x = a \<and> y = b) \<or> (x = b \<and> y = a)))"
      unfolding f e' by (simp only: disj_assoc)
  qed
qed

lemma foldl_add_match_triples:
  "foldl (add_match excl src) G ps = foldl (add_triple excl) G (map (\<lambda>(a, b). (a, b, src)) ps)"
  by (induction ps arbitrary: G) (auto simp: add_triple_def)

lemma foldl_add_row_triples:
  "foldl (add_row df excl) G rows =
     foldl (add_triple excl) G
       (concat (map (\<lambda>row. map (\<lambda>(a, b). (a, b, row_get_str df row ''Title'' ''Unknown''))
                         (extract_pairs (row_get_str df row answer_column []))) rows))"
proof (induction rows arbitrary: G)
  case Nil
  then show ?case by simp
next
  case (Cons r rows)
  have "add_row df excl G r =
      foldl (add_triple excl) G
        (map (\<lambda>(a, b). (a, b, row_get_str df r ''Title'' ''Unknown''))
           (extract_pairs (row_get_str df r answer_column [])))"
    by (simp add: add_row_def Let_def foldl_add_match_triples)
  then show ?case using Cons.IH by simp
qed

lemma build_filtered_graph_triples:
  "build_filtered_graph df exclude_entities =
     foldl (add_triple (exclusion_list exclude_entities)) empty_graph (extracted_triples df)"
  by (simp add: build_filtered_graph_def extracted_triples_def foldl_add_row_triples)

lemma accepted_iff:
  "\<not> accepted excl a b \<longleftrightarrow>
     a = [] \<or> b = [] \<or> (\<exists>exc \<in> set excl. \<exists>p q. a = p @ exc @ q) \<or>
     (\<exists>exc \<in> set excl. \<exists>p q. b = p @ exc @ q)"
  by (auto simp: accepted_def str_in_iff)

lemma build_filtered_graph_props:
  "wf_graph (build_filtered_graph df exclude_entities)"
  "has_node (build_filtered_graph df exclude_entities) n \<longleftrightarrow>
     (\<exists>a b src. (a, b, src) \<in> set (extracted_triples df) \<and>
        accepted (exclusion_list exclude_entities) a b \<and> (n = a \<or> n = b))"
  "has_edge (build_filtered_graph df exclude_entities) x y \<longleftrightarrow>
     (\<exists>a b src. (a, b, src) \<in> set (extracted_triples df) \<and>
        accepted (exclusion_list exclude_entities) a b \<and>
        ((x = a \<and> y = b) \<or> (x = b \<and> y = a)))"
proof -
  note f = foldl_add_triple[OF wf_empty_graph, of "exclusion_list exclude_entities"
      "extracted_triples df", folded build_filtered_graph_triples]
  show "wf_graph (build_filtered_graph df exclude_entities)" using f by blast
  have "set (nodes_of (empty_graph :: (string, string) graph)) = {}"
    by (simp add: empty_graph_def nodes_of_def)
  then show "has_node (build_filtered_graph df exclude_entities) n \<longleftrightarrow>
     (\<exists>a b src. (a, b, src) \<in> set (extracted_triples df) \<and>
        accepted (exclusion_list exclude_entities) a b \<and> (n = a \<or> n = b))"
    using f unfolding has_node_def by simp
  have "\<not> has_edge (empty_graph :: (string, string) graph) x y"
    by (simp add: has_edge_iff adj_of_def empty_graph_def)
  then show "has_edge (build_filtered_graph df exclude_entities) x y \<longleftrightarrow>
     (\<exists>a b src. (a, b, src) \<in> set (extracted_triples df) \<and>
        accepted (exclusion_list exclude_entities) a b \<and>
        ((x = a \<and> y = b) \<or> (x = b \<and> y = a)))"
    using f by simp
qed

lemma add_triple_accepted:
  assumes "wf_graph G" and "accepted excl a b"
  shows "has_node (add_triple excl G (a, b, src)) a \<and> has_node (add_triple excl G (a, b, src)) b \<and>
    has_edge (add_triple excl G (a, b, src)) a b \<and> has_edge (add_triple excl G (a, b, src)) b a \<and>
    (\<exists>attr. edge_attrs (add_triple excl G (a, b, src)) a b = Some attr \<and>
       map_of attr ''title'' = Some src)"
proof -
  have eq: "add_triple excl G (a, b, src) = add_match excl src G (a, b)"
    by (simp add: add_triple_def)
  show ?thesis
    unfolding eq has_node_def
    using add_match_props(2)[OF assms(1), of excl src a b]
      add_match_props(3)[OF assms(1), of excl src a b]
      add_match_title[OF assms, of src] assms(2)
    by simp
qed

lemma pathway_example:
  "nodes_of (build_filtered_graph
     \<lparr>df_columns = [''Title'', answer_column],
      df_rows = [(\<lambda>c. if c = ''Title'' then Str ''T1''
                      else Str ''(Gene1, Pathway3) (Gene1, Protein2) (pathway, Gene2) (x,  )'')]\<rparr>
     (Some [''Pathway''])) = [''Gene1'', ''Protein2'', ''pathway'', ''Gene2'']"
  by code_simp

section \<open>Properties of \<open>str.lower\<close>\<close>

















section \<open>Properties of the keyword search\<close>






























section \<open>Properties of batch analysis\<close>

lemma foldl_rows_length:
  "length (foldl (\<lambda>rs i. rs[i := (rs ! i)(col := f i)]) rows js) = length rows"
  by (induction js arbitrary: rows) simp_all

lemma foldl_rows_nth:
  fixes rows :: "(string \<Rightarrow> cell) list"
  assumes "i < length rows"
  shows "foldl (\<lambda>rs i. rs[i := (rs ! i)(col := f i)]) rows js ! i =
     (if i \<in> set js then (rows ! i)(col := f i) else rows ! i)"
  using assms
proof (induction js arbitrary: rows)
  case Nil
  then show ?case by simp
next
  case (Cons j js)
  let ?rows' = "rows[j := (rows ! j)(col := f j)]"
  have len: "i < length ?rows'" using Cons.prems by simp
  have ih: "foldl (\<lambda>rs i. rs[i := (rs ! i)(col := f i)]) ?rows' js ! i =
     (if i \<in> set js then (?rows' ! i)(col := f i) else ?rows' ! i)"
    using len by (rule Cons.IH)
  have unf: "foldl (\<lambda>rs i. rs[i := (rs ! i)(col := f i)]) rows (j # js) ! i =
      foldl (\<lambda>rs i. rs[i := (rs ! i)(col := f i)]) ?rows' js ! i"
    by (simp only: foldl_Cons)
  show ?case
  proof (cases "i = j")
    case True
    have r: "?rows' ! i = (rows ! i)(col := f i)" using Cons.prems True by simp
    have "(if i \<in> set js then (?rows' ! i)(col := f i) else ?rows' ! i) = (rows ! i)(col := f i)"
      unfolding r by simp
    moreover have "i \<in> set (j # js)" using True by simp
    ultimately show ?thesis unfolding unf ih by (simp only: if_True)
  next
    case False
    have r: "?rows' ! i = rows ! i" using False by simp
    have "i \<in> set (j # js) \<longleftrightarrow> i \<in> set js" using False by simp
    then show ?thesis unfolding unf ih r by (simp only:)
  qed
qed

lemma foldl_set_cell_rows:
  "df_rows (foldl (\<lambda>df' i. set_cell df' i col (f i)) df js) =
     foldl (\<lambda>rs i. rs[i := (rs ! i)(col := Str (g i))]) (df_rows df) js"
  if "\<And>i. f i = Str (g i)"
  using that by (induction js arbitrary: df) (simp_all add: set_cell_def)

lemma foldl_set_cell:
  "foldl (\<lambda>df' i. set_cell df' i col (F i)) df js =
     df\<lparr>df_rows := foldl (\<lambda>rs i. rs[i := (rs ! i)(col := F i)]) (df_rows df) js\<rparr>"
  by (induction js arbitrary: df) (simp_all add: set_cell_def)

lemma foldl_rows_map:
  fixes rows :: "(string \<Rightarrow> cell) list"
  shows "foldl (\<lambda>rs i. rs[i := (rs ! i)(col := F i)]) rows js =
     map (\<lambda>i. if i \<in> set js then (rows ! i)(col := F i) else rows ! i) [0 ..< length rows]"
proof (rule nth_equalityI)
  show "length (foldl (\<lambda>rs i. rs[i := (rs ! i)(col := F i)]) rows js) =
      length (map (\<lambda>i. if i \<in> set js then (rows ! i)(col := F i) else rows ! i) [0 ..< length rows])"
    by (simp add: foldl_rows_length)
next
  fix i assume "i < length (foldl (\<lambda>rs i. rs[i := (rs ! i)(col := F i)]) rows js)"
  then have i: "i < length rows" by (simp add: foldl_rows_length)
  then show "foldl (\<lambda>rs i. rs[i := (rs ! i)(col := F i)]) rows js ! i =
      map (\<lambda>i. if i \<in> set js then (rows ! i)(col := F i) else rows ! i) [0 ..< length rows] ! i"
    by (simp add: foldl_rows_nth)
qed

lemma abstract_not_answer: "''Abstract'' \<noteq> answer_column"
  by (simp add: answer_column_def)

lemma ensure_answer_column_props:
  "length (df_rows (ensure_answer_column df)) = length (df_rows df)"
  "''Abstract'' \<in> set (df_columns df) \<Longrightarrow> ''Abstract'' \<in> set (df_columns (ensure_answer_column df))"
  "i < length (df_rows df) \<Longrightarrow>
     (df_rows (ensure_answer_column df) ! i) ''Abstract'' = (df_rows df ! i) ''Abstract''"
  using abstract_not_answer by (simp_all add: ensure_answer_column_def)

lemma analyze_single_row_ok:
  assumes "''Abstract'' \<in> set (df_columns df)"
  shows "analyze_single_row client df i = Inr (i, row_result client df i)"
  using assms by (simp add: analyze_single_row_def row_result_def analyze_abstract_def Let_def)

lemma batch_analyze_parallel_eq:
  assumes "''Abstract'' \<in> set (df_columns df)"
  shows "batch_analyze_parallel client ac df rows =
     df\<lparr>df_rows := map (\<lambda>i. if i \<in> set (ac rows)
                               then (df_rows df ! i)(answer_column := Str (row_result client df i))
                               else df_rows df ! i) [0 ..< length (df_rows df)]\<rparr>"
proof -
  have "batch_analyze_parallel client ac df rows =
      foldl (\<lambda>df' i. set_cell df' i answer_column (Str (row_result client df i))) df (ac rows)"
    unfolding batch_analyze_parallel_def analyze_single_row_ok[OF assms] by simp
  then show ?thesis unfolding foldl_set_cell foldl_rows_map .
qed

lemma batch_analyze_sequential_eq:
  assumes "''Abstract'' \<in> set (df_columns df0)"
  shows "batch_analyze_sequential client df0 df rows =
     Inr (foldl (\<lambda>df' i. set_cell df' i answer_column (Str (row_result client df0 i))) df rows)"
  using assms by (induction rows arbitrary: df) (simp_all add: row_result_def)

lemma rows_to_process_set:
  "i \<in> set (rows_to_process df start_row) \<longleftrightarrow> i < length (df_rows df) \<and> start_row \<le> int i"
  by (auto simp: rows_to_process_def)

lemma row_result_ensure:
  "i < length (df_rows df) \<Longrightarrow> row_result client (ensure_answer_column df) i = row_result client df i"
  by (simp add: row_result_def ensure_answer_column_props(3))

lemma analyzed_eq:
  "analyzed client df start_row =
     (ensure_answer_column df)\<lparr>df_rows :=
        map (\<lambda>i. if i \<in> set (rows_to_process (ensure_answer_column df) start_row)
                  then (df_rows (ensure_answer_column df) ! i)
                         (answer_column := Str (row_result client (ensure_answer_column df) i))
                  else df_rows (ensure_answer_column df) ! i)
          [0 ..< length (df_rows (ensure_answer_column df))]\<rparr>"
proof -
  have "map (\<lambda>i. if start_row \<le> int i
                  then (df_rows (ensure_answer_column df) ! i)
                         (answer_column := Str (row_result client df i))
                  else df_rows (ensure_answer_column df) ! i)
          [0 ..< length (df_rows df)] =
        map (\<lambda>i. if i \<in> set (rows_to_process (ensure_answer_column df) start_row)
                  then (df_rows (ensure_answer_column df) ! i)
                         (answer_column := Str (row_result client (ensure_answer_column df) i))
                  else df_rows (ensure_answer_column df) ! i)
          [0 ..< length (df_rows df)]"
    by (rule map_cong)
      (simp_all add: rows_to_process_set ensure_answer_column_props(1) row_result_ensure)
  then show ?thesis by (simp add: analyzed_def ensure_answer_column_props(1))
qed

lemma batch_analyze_eq:
  assumes abs: "''Abstract'' \<in> set (df_columns df)"
    and ac: "mset (as_completed (rows_to_process (ensure_answer_column df) start_row)) =
             mset (rows_to_process (ensure_answer_column df) start_row)"
  shows "batch_analyze client use_parallel as_completed df start_row =
     Inr (analyzed client df start_row)"
proof -
  define df1 where "df1 = ensure_answer_column df"
  define rows where "rows = rows_to_process df1 start_row"
  have abs1: "''Abstract'' \<in> set (df_columns df1)"
    unfolding df1_def using abs by (rule ensure_answer_column_props(2))
  have set_ac: "set (as_completed rows) = set rows"
    using ac mset_eq_setD unfolding rows_def df1_def by blast
  have target: "analyzed client df start_row =
      df1\<lparr>df_rows := map (\<lambda>i. if i \<in> set rows
                               then (df_rows df1 ! i)(answer_column := Str (row_result client df1 i))
                               else df_rows df1 ! i) [0 ..< length (df_rows df1)]\<rparr>"
    unfolding rows_def df1_def by (rule analyzed_eq)
  have par: "batch_analyze_parallel client as_completed df1 rows = analyzed client df start_row"
    unfolding target batch_analyze_parallel_eq[OF abs1] set_ac ..
  have seq: "batch_analyze_sequential client df1 df1 rows = Inr (analyzed client df start_row)"
    unfolding target batch_analyze_sequential_eq[OF abs1] foldl_set_cell foldl_rows_map ..
  have none: "df1 = analyzed client df start_row" if "rows = []"
  proof -
    have "map (\<lambda>i. if i \<in> set rows
                    then (df_rows df1 ! i)(answer_column := Str (row_result client df1 i))
                    else df_rows df1 ! i) [0 ..< length (df_rows df1)] = df_rows df1"
      using that by (simp add: map_nth)
    then show ?thesis unfolding target by simp
  qed
  show ?thesis
    using par seq none
    by (simp add: batch_analyze_def Let_def df1_def[symmetric] rows_def[symmetric])
qed

lemma analyzed_length: "length (df_rows (analyzed client df start_row)) = length (df_rows df)"
  by (simp add: analyzed_def)

lemma analyzed_cell:
  assumes "i < length (df_rows df)" and "start_row \<le> int i"
  shows "(df_rows (analyzed client df start_row) ! i) answer_column = Str (row_result client df i)"
  using assms by (simp add: analyzed_def)

lemma row_result_cases:
  "no_abstract ((df_rows df ! i) ''Abstract'') \<Longrightarrow> row_result client df i = []"
  "client i (str_cell ((df_rows df ! i) ''Abstract'')) = Inl e \<Longrightarrow> row_result client df i = []"
  "\<not> no_abstract ((df_rows df ! i) ''Abstract'') \<Longrightarrow>
     client i (str_cell ((df_rows df ! i) ''Abstract'')) = Inr content \<Longrightarrow>
     row_result client df i = strip content"
  by (simp_all add: row_result_def analyze_abstract_def)

section \<open>Properties of the pipeline\<close>

lemma kept_refl: "kept r r"
  by (simp add: kept_def)

lemma kept_trans: "kept a b \<Longrightarrow> kept b c \<Longrightarrow> kept a c"
  by (simp add: kept_def)

lemma kept_error: "kept r r' \<Longrightarrow> kept r (r'\<lparr>r_error := e\<rparr>)"
  by (simp add: kept_def)

lemma run_append:
  "run (xs @ ys) r =
     (case run xs r of Next r' \<Rightarrow> run ys r' | Return r' \<Rightarrow> Return r' | Raise e r' \<Rightarrow> Raise e r')"
  by (induction xs arbitrary: r) (auto split: step.splits)

lemma build_finish: "build_knowledge_graph oc kw = finish (run (steps oc) (init_results kw))"
  by (simp add: build_knowledge_graph_def finish_def)

lemma fresh_init: "fresh 0 (init_results kw)"
  by (simp add: fresh_def init_results_def)

text \<open>Each step keeps the entries it finds, sets no \<open>error\<close>, and leaves the keys of the
  later steps alone.\<close>

lemma step_search_keeps:
  assumes "fresh 0 r"
  shows "kept r (step_state (step_search oc r)) \<and> r_error (step_state (step_search oc r)) = None \<and>
    (\<forall>r'. step_search oc r = Next r' \<longrightarrow> fresh (Suc 0) r')"
  using assms
  by (auto simp: step_search_def kept_def fresh_def set_file_def set_stat_def
      AList.update_conv' Let_def split: sum.splits prod.splits)

lemma step_analyze_keeps:
  assumes "fresh (Suc 0) r"
  shows "kept r (step_state (step_analyze oc r)) \<and> r_error (step_state (step_analyze oc r)) = None \<and>
    (\<forall>r'. step_analyze oc r = Next r' \<longrightarrow> fresh (Suc (Suc 0)) r')"
  using assms
  by (auto simp: step_analyze_def kept_def fresh_def set_file_def set_stat_def
      AList.update_conv' Let_def split: sum.splits prod.splits)

lemma step_process_keeps:
  assumes "fresh (Suc (Suc 0)) r"
  shows "kept r (step_state (step_process oc r)) \<and> r_error (step_state (step_process oc r)) = None \<and>
    (\<forall>r'. step_process oc r = Next r' \<longrightarrow> fresh (Suc (Suc (Suc 0))) r')"
  using assms
  by (auto simp: step_process_def kept_def fresh_def set_file_def set_stat_def
      AList.update_conv' Let_def split: sum.splits prod.splits)

lemma step_visualize_keeps:
  assumes "fresh (Suc (Suc (Suc 0))) r"
  shows "kept r (step_state (step_visualize oc r)) \<and>
    r_error (step_state (step_visualize oc r)) = None \<and>
    (\<forall>r'. step_visualize oc r = Next r' \<longrightarrow> fresh (Suc (Suc (Suc (Suc 0)))) r')"
  using assms
  by (auto simp: step_visualize_def kept_def fresh_def set_file_def set_stat_def
      AList.update_conv' Let_def split: sum.splits prod.splits)

lemma step_report_keeps:
  assumes "fresh (Suc (Suc (Suc (Suc 0)))) r"
  shows "kept r (step_state (step_report oc r)) \<and> r_error (step_state (step_report oc r)) = None \<and>
    (\<forall>r'. step_report oc r = Next r' \<longrightarrow> fresh (Suc (Suc (Suc (Suc (Suc 0))))) r')"
  using assms
  by (auto simp: step_report_def kept_def fresh_def set_file_def set_stat_def
      AList.update_conv' Let_def split: sum.splits prod.splits)

lemma length_steps: "length (steps oc) = 5"
  by (simp add: steps_def)

lemma step_keeps:
  assumes "k < 5" and "fresh k r"
  shows "kept r (step_state ((steps oc ! k) r)) \<and> r_error (step_state ((steps oc ! k) r)) = None \<and>
    (\<forall>r'. (steps oc ! k) r = Next r' \<longrightarrow> fresh (Suc k) r')"
proof -
  consider "k = 0" | "k = Suc 0" | "k = Suc (Suc 0)" | "k = Suc (Suc (Suc 0))"
    | "k = Suc (Suc (Suc (Suc 0)))" using assms(1) by linarith
  then show ?thesis
  proof cases
    case 1
    then show ?thesis using step_search_keeps[of r oc] assms(2) by (simp add: steps_def)
  next
    case 2
    then show ?thesis using step_analyze_keeps[of r oc] assms(2) by (simp add: steps_def)
  next
    case 3
    then show ?thesis using step_process_keeps[of r oc] assms(2) by (simp add: steps_def)
  next
    case 4
    then show ?thesis using step_visualize_keeps[of r oc] assms(2) by (simp add: steps_def)
  next
    case 5
    then show ?thesis using step_report_keeps[of r oc] assms(2) by (simp add: steps_def)
  qed
qed

lemma run_from_prefix:
  assumes "run (take k (steps oc)) (init_results kw) = Next rk"
  shows "run (steps oc) (init_results kw) = run (drop k (steps oc)) rk"
proof -
  have "run (take k (steps oc) @ drop k (steps oc)) (init_results kw) = run (drop k (steps oc)) rk"
    unfolding run_append assms by simp
  then show ?thesis by simp
qed

lemma run_keeps:
  "k \<le> 5 \<Longrightarrow> fresh k r \<Longrightarrow>
   kept r (step_state (run (drop k (steps oc)) r)) \<and>
   r_error (step_state (run (drop k (steps oc)) r)) = None"
proof (induction "5 - k" arbitrary: k r)
  case 0
  then have "drop k (steps oc) = []" by (simp add: length_steps)
  then show ?case using 0 by (simp add: kept_refl fresh_def)
next
  case (Suc n)
  then have k: "k < 5" by linarith
  then have d: "drop k (steps oc) = (steps oc ! k) # drop (Suc k) (steps oc)"
    by (simp add: Cons_nth_drop_Suc length_steps)
  note st = step_keeps[OF k Suc.prems(2), of oc]
  show ?case
  proof (cases "(steps oc ! k) r")
    case (Next r')
    then have fr: "fresh (Suc k) r'" using st by blast
    have kr: "kept r r'" using st Next by simp
    have "n = 5 - Suc k" using Suc.hyps(2) by linarith
    then have ih: "kept r' (step_state (run (drop (Suc k) (steps oc)) r')) \<and>
        r_error (step_state (run (drop (Suc k) (steps oc)) r')) = None"
      using Suc.hyps(1)[of "Suc k" r'] k fr by simp
    have "run (drop k (steps oc)) r = run (drop (Suc k) (steps oc)) r'"
      unfolding d using Next by simp
    then show ?thesis using ih kr kept_trans by metis
  next
    case (Return r')
    then have "run (drop k (steps oc)) r = Return r'" unfolding d by simp
    then show ?thesis using st Return by simp
  next
    case (Raise e r')
    then have "run (drop k (steps oc)) r = Raise e r'" unfolding d by simp
    then show ?thesis using st Raise by simp
  qed
qed

lemma prefix_fresh:
  "k \<le> 5 \<Longrightarrow> run (take k (steps oc)) (init_results kw) = Next rk \<Longrightarrow> fresh k rk"
proof (induction k arbitrary: rk)
  case 0
  then have "rk = init_results kw" by simp
  then show ?case by (simp add: fresh_init)
next
  case (Suc k)
  then have k: "k < 5" by linarith
  have t: "take (Suc k) (steps oc) = take k (steps oc) @ [steps oc ! k]"
    using k by (simp add: take_Suc_conv_app_nth length_steps)
  from Suc.prems(2) obtain r' where
    p: "run (take k (steps oc)) (init_results kw) = Next r'" and s: "(steps oc ! k) r' = Next rk"
    unfolding t run_append by (auto split: step.splits)
  have "fresh k r'" using Suc.IH[OF _ p] k by simp
  then show ?case using step_keeps[OF k, of r' oc] s by blast
qed

lemma finish_kept: "kept r (step_state st) \<Longrightarrow> kept r (finish st)"
  by (cases st) (simp_all add: finish_def kept_error)

lemma prefix_kept:
  assumes "k \<le> 5" and "run (take k (steps oc)) (init_results kw) = Next rk"
  shows "kept rk (build_knowledge_graph oc kw)"
proof -
  have "fresh k rk" using assms by (rule prefix_fresh)
  then have "kept rk (step_state (run (drop k (steps oc)) rk))"
    using run_keeps[OF assms(1)] by blast
  then have "kept rk (finish (run (drop k (steps oc)) rk))" by (rule finish_kept)
  then show ?thesis unfolding build_finish run_from_prefix[OF assms(2)] .
qed

lemma raise_caught:
  assumes "run (steps oc) (init_results kw) = Raise e r"
  shows "build_knowledge_graph oc kw = r\<lparr>r_error := Some e\<rparr>"
    and "r_error (build_knowledge_graph oc kw) = Some e"
    and "kept r (build_knowledge_graph oc kw)"
  using assms by (simp_all add: build_knowledge_graph_def kept_error kept_refl)

lemma no_raise_no_error:
  assumes "\<forall>e r. run (steps oc) (init_results kw) \<noteq> Raise e r"
  shows "r_error (build_knowledge_graph oc kw) = None"
proof -
  have "r_error (step_state (run (drop 0 (steps oc)) (init_results kw))) = None"
    using run_keeps[of 0 "init_results kw" oc] by (simp add: fresh_init)
  then show ?thesis using assms
    by (cases "run (steps oc) (init_results kw)") (simp_all add: build_knowledge_graph_def)
qed

lemma first_raise:
  assumes "k < 5" and "run (take k (steps oc)) (init_results kw) = Next rk"
    and "(steps oc ! k) rk = Raise e r"
  shows "run (steps oc) (init_results kw) = Raise e r" and "kept rk r"
proof -
  have d: "drop k (steps oc) = (steps oc ! k) # drop (Suc k) (steps oc)"
    using assms(1) by (simp add: Cons_nth_drop_Suc length_steps)
  show "run (steps oc) (init_results kw) = Raise e r"
    unfolding run_from_prefix[OF assms(2)] d using assms(3) by simp
  have "fresh k rk" using assms(1,2) prefix_fresh[of k oc kw rk] by simp
  then show "kept rk r" using step_keeps[OF assms(1), of rk oc] assms(3) by simp
qed

lemma failing_run_value:
  "build_knowledge_graph failing_run ''k'' =
     \<lparr>r_keyword = ''k'',
      r_files = [(''search_results'', Some ''out/k_pubmed_search_results.xlsx'')],
      r_statistics = [(''total_articles'', Count 3)], r_entities = None,
      r_node_names = None, r_ai_summary = None, r_error = Some ''connection lost''\<rparr>"
  by (simp add: build_knowledge_graph_def steps_def step_search_def step_analyze_def
      failing_run_def init_results_def set_file_def set_stat_def)

lemma filtered_network_raises:
  assumes "o_search_and_save oc = Inr (n, False, f)" "o_batch_analyze oc = Inr u"
    "o_save_results oc = Inr cf" "o_process_entities oc = Inr (ents, m)"
    "o_save_processed_data oc = Inr pf" "o_create_full_network oc = Inr ff"
    "o_create_filtered_network oc = Inl e"
  shows "r_error (build_knowledge_graph oc kw) = Some e \<and>
    map_of (r_files (build_knowledge_graph oc kw)) ''search_results'' = Some f \<and>
    map_of (r_files (build_knowledge_graph oc kw)) ''causal_analysis'' = Some (Some cf) \<and>
    map_of (r_files (build_knowledge_graph oc kw)) ''processed_data'' = Some (Some pf) \<and>
    map_of (r_files (build_knowledge_graph oc kw)) ''full_network'' = Some (Some ff) \<and>
    map_of (r_statistics (build_knowledge_graph oc kw)) ''total_articles'' = Some (Count (int n)) \<and>
    map_of (r_statistics (build_knowledge_graph oc kw)) ''total_entities'' =
      Some (Count (int (length ents))) \<and>
    r_entities (build_knowledge_graph oc kw) = Some ents \<and>
    r_keyword (build_knowledge_graph oc kw) = kw"
  using assms
  by (simp add: build_knowledge_graph_def steps_def step_search_def step_analyze_def
      step_process_def step_visualize_def init_results_def set_file_def set_stat_def
      AList.update_conv')

section \<open>Claims\<close>

text \<open>
  C1. For every input string, pair extraction (\<open>re.findall\<close> with the pair pattern, each
  side stripped) returns exactly the ordered left-to-right sequence of the well-formed
  groups "open parenthesis, text without comma, comma, optional whitespace, text without
  close parenthesis, close parenthesis", each side trimmed. A string without a well-formed
  group at any position gives the empty sequence, and
  \<open>(Gene1, Protein2) and (Protein2, Pathway3)\<close> gives the two pairs of the spec. The
  function is total: malformed groups are skipped and nothing is raised.
\<close>

theorem extract_pairs_spec:
  "(groups_of s ps \<longleftrightarrow> ps = extract_pairs s) \<and>
   (match_pair s = Some ((a, b), rest) \<longleftrightarrow> wf_group s a b rest) \<and>
   ((\<forall>i a b rest. \<not> wf_group (drop i s) a b rest) \<longleftrightarrow> extract_pairs s = []) \<and>
   extract_pairs ''(Gene1, Protein2) and (Protein2, Pathway3)'' =
     [(''Gene1'', ''Protein2''), (''Protein2'', ''Pathway3'')]"
proof -
  have "extract_pairs ''(Gene1, Protein2) and (Protein2, Pathway3)'' =
     [(''Gene1'', ''Protein2''), (''Protein2'', ''Pathway3'')]"
    by code_simp
  moreover have "groups_of s ps \<longleftrightarrow> ps = extract_pairs s"
    using groups_of_extract groups_of_unique by blast
  moreover have "(\<forall>i a b rest. \<not> wf_group (drop i s) a b rest) \<longleftrightarrow> extract_pairs s = []"
    using no_group_empty empty_no_group by blast
  ultimately show ?thesis
    using match_pair_wf by blast
qed

theorem extract_pairs_spec_witness:
  "(\<forall>i a b rest. \<not> wf_group (drop i ''no (groups here'') a b rest) \<and>
   extract_pairs ''no (groups here'' = [] \<and>
   wf_group ''(a,  b )c'' ''a'' ''b'' ''c'' \<and>
   groups_of ''(a,  ) (,c) ( d , e f )'' [(''a'', ''''), (''d'', ''e f'')]"
proof -
  have e1: "extract_pairs ''no (groups here'' = []" by code_simp
  have e2: "match_pair ''(a,  b )c'' = Some ((''a'', ''b''), ''c'')" by code_simp
  have e3: "extract_pairs ''(a,  ) (,c) ( d , e f )'' = [(''a'', ''''), (''d'', ''e f'')]"
    by code_simp
  show ?thesis
    using e1 e2 e3
      extract_pairs_spec[of "''no (groups here''" "[]" "''a''" "''b''" "''c''"]
      extract_pairs_spec[of "''(a,  b )c''" "[]" "''a''" "''b''" "''c''"]
      extract_pairs_spec[of "''(a,  ) (,c) ( d , e f )''" "[(''a'', ''''), (''d'', ''e f'')]" "''a''" "''b''" "''c''"]
    by simp
qed




text \<open>
  C3. In every canonicalization map that deduplication produces, in embedding mode and in
  string mode, an entry sends its key to a canonical string that is not longer than the
  key. On equal lengths the choice is fixed by the order of the entity list: the entity
  that comes earlier in the list is the canonical one.
\<close>

theorem canonical_is_shorter:
  "((k, v) \<in> set (find_similar_with_strings exceeds entities) \<or>
    (k, v) \<in> set (find_similar_with_embeddings entities above_threshold) \<or>
    (k, v) \<in> set (find_similar_entities exceeds model entities)
    \<longrightarrow> length v \<le> length k \<and>
        (length v = length k \<longrightarrow>
           (\<exists>i j. i < j \<and> j < length entities \<and> v = entities ! i \<and> k = entities ! j))) \<and>
   find_similar_with_strings exceeds [''Ab'', ''aB''] = [(''aB'', ''Ab'')]"
proof -
  obtain sim where sim: "find_similar_entities exceeds model entities = similar_loop sim entities"
    using find_similar_entities_loop by blast
  show ?thesis
    using similar_loop_canonical[of k v _ entities] sim tie_value
    unfolding find_similar_with_strings_def find_similar_with_embeddings_def
    by metis
qed

theorem canonical_is_shorter_witness:
  "(''abcd'', ''abc'') \<in> set (find_similar_with_strings exceeds_default [''ab'', ''abc'', ''abcd'']) \<and>
   length ''abc'' \<le> length ''abcd'' \<and>
   (''aB'', ''Ab'') \<in> set (find_similar_entities exceeds_default None [''Ab'', ''aB'']) \<and>
   length ''Ab'' = length ''aB'' \<and>
   (\<exists>i j. i < j \<and> j < length [''Ab'', ''aB''] \<and> ''Ab'' = [''Ab'', ''aB''] ! i \<and> ''aB'' = [''Ab'', ''aB''] ! j)"
proof -
  have m1: "(''abcd'', ''abc'') \<in> set (find_similar_with_strings exceeds_default [''ab'', ''abc'', ''abcd''])"
    by (simp add: chain_value)
  have m2: "(''aB'', ''Ab'') \<in> set (find_similar_entities exceeds_default None [''Ab'', ''aB''])"
    by (simp add: find_similar_entities_def tie_value)
  show ?thesis
    using m1 m2
      canonical_is_shorter[of "''abcd''" "''abc''" exceeds_default "[''ab'', ''abc'', ''abcd'']"
        "\<lambda>i j. False" None]
      canonical_is_shorter[of "''aB''" "''Ab''" exceeds_default "[''Ab'', ''aB'']"
        "\<lambda>i j. False" None]
    by simp
qed

text \<open>
  C4. The canonicalization map need not be transitively closed: for the entity list
  \<open>ab\<close>, \<open>abc\<close>, \<open>abcd\<close> string mode maps \<open>abcd\<close> to \<open>abc\<close> and \<open>abc\<close> to \<open>ab\<close>, and
  does not map \<open>abcd\<close> to \<open>ab\<close>.
\<close>

theorem chain_not_closed:
  "find_similar_with_strings exceeds [''ab'', ''abc'', ''abcd''] =
     [(''abc'', ''ab''), (''abcd'', ''abc'')] \<and>
   (\<exists>entities a b c.
      map_of (find_similar_with_strings exceeds entities) a = Some b \<and>
      map_of (find_similar_with_strings exceeds entities) b = Some c \<and>
      map_of (find_similar_with_strings exceeds entities) a \<noteq> Some c)"
proof -
  let ?m = "find_similar_with_strings exceeds [''ab'', ''abc'', ''abcd'']"
  have "map_of ?m ''abcd'' = Some ''abc'' \<and> map_of ?m ''abc'' = Some ''ab'' \<and>
      map_of ?m ''abcd'' \<noteq> Some ''ab''"
    by (simp add: chain_value)
  then show ?thesis using chain_value by blast
qed

theorem chain_not_closed_witness:
  "map_of (find_similar_with_strings exceeds_default [''ab'', ''abc'', ''abcd'']) ''abcd'' = Some ''abc'' \<and>
   map_of (find_similar_with_strings exceeds_default [''ab'', ''abc'', ''abcd'']) ''abc'' = Some ''ab'' \<and>
   map_of (find_similar_with_strings exceeds_default [''ab'', ''abc'', ''abcd'']) ''abcd'' \<noteq> Some ''ab''"
  using chain_not_closed[of exceeds_default] by simp

text \<open>
  C5. During the construction of the filtered graph a triple (entity A, entity B, source
  label) is rejected exactly when one of the two entities is empty after trimming or
  contains, as a substring in the given case, a string of the exclusion list. A rejected
  triple leaves the graph as it is; an accepted triple makes both entities nodes and joins
  them by an edge that carries the source label. So the nodes and edges of the graph that
  is built are exactly those of the accepted triples. With the exclusion list
  \<open>Pathway\<close> every triple with \<open>Pathway\<close> in an entity is dropped, and one with
  \<open>pathway\<close> is kept.
\<close>

theorem exclusion_filter:
  "(\<not> accepted excl a b \<longleftrightarrow>
      a = [] \<or> b = [] \<or> (\<exists>exc \<in> set excl. \<exists>p q. a = p @ exc @ q) \<or>
      (\<exists>exc \<in> set excl. \<exists>p q. b = p @ exc @ q)) \<and>
   (\<not> accepted excl a b \<longrightarrow> add_triple excl G (a, b, src) = G) \<and>
   (wf_graph G \<and> accepted excl a b \<longrightarrow>
      has_node (add_triple excl G (a, b, src)) a \<and> has_node (add_triple excl G (a, b, src)) b \<and>
      has_edge (add_triple excl G (a, b, src)) a b \<and> has_edge (add_triple excl G (a, b, src)) b a \<and>
      (\<exists>attr. edge_attrs (add_triple excl G (a, b, src)) a b = Some attr \<and>
         map_of attr ''title'' = Some src)) \<and>
   build_filtered_graph df exclude_entities =
     foldl (add_triple (exclusion_list exclude_entities)) empty_graph (extracted_triples df) \<and>
   (has_node (build_filtered_graph df exclude_entities) n \<longleftrightarrow>
     (\<exists>a b src. (a, b, src) \<in> set (extracted_triples df) \<and>
        accepted (exclusion_list exclude_entities) a b \<and> (n = a \<or> n = b))) \<and>
   (has_edge (build_filtered_graph df exclude_entities) x y \<longleftrightarrow>
     (\<exists>a b src. (a, b, src) \<in> set (extracted_triples df) \<and>
        accepted (exclusion_list exclude_entities) a b \<and>
        ((x = a \<and> y = b) \<or> (x = b \<and> y = a)))) \<and>
   nodes_of (build_filtered_graph
     \<lparr>df_columns = [''Title'', answer_column],
      df_rows = [(\<lambda>c. if c = ''Title'' then Str ''T1''
                      else Str ''(Gene1, Pathway3) (Gene1, Protein2) (pathway, Gene2) (x,  )'')]\<rparr>
     (Some [''Pathway''])) = [''Gene1'', ''Protein2'', ''pathway'', ''Gene2'']"
proof (intro conjI)
  show "\<not> accepted excl a b \<longleftrightarrow>
      a = [] \<or> b = [] \<or> (\<exists>exc \<in> set excl. \<exists>p q. a = p @ exc @ q) \<or>
      (\<exists>exc \<in> set excl. \<exists>p q. b = p @ exc @ q)" by (rule accepted_iff)
  show "\<not> accepted excl a b \<longrightarrow> add_triple excl G (a, b, src) = G"
    by (simp add: add_triple_def add_match_rejected)
  show "wf_graph G \<and> accepted excl a b \<longrightarrow>
      has_node (add_triple excl G (a, b, src)) a \<and> has_node (add_triple excl G (a, b, src)) b \<and>
      has_edge (add_triple excl G (a, b, src)) a b \<and> has_edge (add_triple excl G (a, b, src)) b a \<and>
      (\<exists>attr. edge_attrs (add_triple excl G (a, b, src)) a b = Some attr \<and>
         map_of attr ''title'' = Some src)"
    using add_triple_accepted[of G excl a b src] by blast
  show "build_filtered_graph df exclude_entities =
     foldl (add_triple (exclusion_list exclude_entities)) empty_graph (extracted_triples df)"
    by (rule build_filtered_graph_triples)
  show "has_node (build_filtered_graph df exclude_entities) n \<longleftrightarrow>
     (\<exists>a b src. (a, b, src) \<in> set (extracted_triples df) \<and>
        accepted (exclusion_list exclude_entities) a b \<and> (n = a \<or> n = b))"
    by (rule build_filtered_graph_props(2))
  show "has_edge (build_filtered_graph df exclude_entities) x y \<longleftrightarrow>
     (\<exists>a b src. (a, b, src) \<in> set (extracted_triples df) \<and>
        accepted (exclusion_list exclude_entities) a b \<and>
        ((x = a \<and> y = b) \<or> (x = b \<and> y = a)))"
    by (rule build_filtered_graph_props(3))
  show "nodes_of (build_filtered_graph
     \<lparr>df_columns = [''Title'', answer_column],
      df_rows = [(\<lambda>c. if c = ''Title'' then Str ''T1''
                      else Str ''(Gene1, Pathway3) (Gene1, Protein2) (pathway, Gene2) (x,  )'')]\<rparr>
     (Some [''Pathway''])) = [''Gene1'', ''Protein2'', ''pathway'', ''Gene2'']"
    by (rule pathway_example)
qed

theorem exclusion_filter_witness:
  "\<not> accepted [''Pathway''] ''Gene1'' ''Pathway3'' \<and>
   add_triple [''Pathway''] empty_graph (''Gene1'', ''Pathway3'', ''T1'') = empty_graph \<and>
   wf_graph (empty_graph :: (string, string) graph) \<and> accepted [''Pathway''] ''pathway'' ''Gene2'' \<and>
   has_edge (add_triple [''Pathway''] empty_graph (''pathway'', ''Gene2'', ''T1'')) ''Gene2'' ''pathway'' \<and>
   \<not> accepted [''Pathway''] ''x'' [] \<and>
   add_triple [''Pathway''] empty_graph (''x'', [], ''T1'') = empty_graph"
proof -
  have r1: "\<not> accepted [''Pathway''] ''Gene1'' ''Pathway3''" by (simp add: accepted_def)
  have r2: "\<not> accepted [''Pathway''] ''x'' []" by (simp add: accepted_def)
  have a1: "wf_graph (empty_graph :: (string, string) graph) \<and> accepted [''Pathway''] ''pathway'' ''Gene2''"
    by (simp add: accepted_def wf_empty_graph)
  note t1 = exclusion_filter[of "[''Pathway'']" "''Gene1''" "''Pathway3''" empty_graph "''T1''"
        "\<lparr>df_columns = [], df_rows = []\<rparr>" None "[]" "[]" "[]"]
  note t2 = exclusion_filter[of "[''Pathway'']" "''x''" "[]" empty_graph "''T1''"
        "\<lparr>df_columns = [], df_rows = []\<rparr>" None "[]" "[]" "[]"]
  note t3 = exclusion_filter[of "[''Pathway'']" "''pathway''" "''Gene2''" empty_graph "''T1''"
        "\<lparr>df_columns = [], df_rows = []\<rparr>" None "[]" "[]" "[]"]
  have c1: "add_triple [''Pathway''] empty_graph (''Gene1'', ''Pathway3'', ''T1'') = empty_graph"
    using r1 t1[THEN conjunct2, THEN conjunct1] by (rule rev_mp)
  have c2: "add_triple [''Pathway''] empty_graph (''x'', [], ''T1'') = empty_graph"
    using r2 t2[THEN conjunct2, THEN conjunct1] by (rule rev_mp)
  have "has_node (add_triple [''Pathway''] empty_graph (''pathway'', ''Gene2'', ''T1'')) ''pathway'' \<and>
      has_node (add_triple [''Pathway''] empty_graph (''pathway'', ''Gene2'', ''T1'')) ''Gene2'' \<and>
      has_edge (add_triple [''Pathway''] empty_graph (''pathway'', ''Gene2'', ''T1'')) ''pathway'' ''Gene2'' \<and>
      has_edge (add_triple [''Pathway''] empty_graph (''pathway'', ''Gene2'', ''T1'')) ''Gene2'' ''pathway'' \<and>
      (\<exists>attr. edge_attrs (add_triple [''Pathway''] empty_graph (''pathway'', ''Gene2'', ''T1''))
           ''pathway'' ''Gene2'' = Some attr \<and> map_of attr ''title'' = Some ''T1'')"
    using a1 t3[THEN conjunct2, THEN conjunct2, THEN conjunct1] by (rule rev_mp)
  then have c3: "has_edge (add_triple [''Pathway''] empty_graph (''pathway'', ''Gene2'', ''T1''))
      ''Gene2'' ''pathway''" by (elim conjE)
  from a1 have a1a: "wf_graph (empty_graph :: (string, string) graph)" and a1b: "accepted [''Pathway''] ''pathway'' ''Gene2''"
    by simp_all
  show ?thesis using r1 c1 a1a a1b c3 r2 c2 by (intro conjI)
qed

text \<open>
  C6. As stated the claim fails in its "exactly": a row whose call succeeded on an abstract
  that is not empty still holds the empty string when the model answered with whitespace,
  since the answer is stripped.
\<close>

theorem blank_answer_counterexample:
  "batch_analyze blank_client False id one_article 0 = Inr (analyzed blank_client one_article 0) \<and>
   (df_rows (analyzed blank_client one_article 0) ! 0) answer_column = Str [] \<and>
   \<not> no_abstract ((df_rows one_article ! 0) ''Abstract'') \<and>
   blank_client 0 (str_cell ((df_rows one_article ! 0) ''Abstract'')) = Inr '' ''"
proof -
  have abs: "''Abstract'' \<in> set (df_columns one_article)" by (simp add: one_article_def)
  have "batch_analyze blank_client False id one_article 0 = Inr (analyzed blank_client one_article 0)"
    using abs by (rule batch_analyze_eq) simp
  moreover have "row_result blank_client one_article 0 = []"
    by (simp add: row_result_def analyze_abstract_def one_article_def blank_client_def
        strip_def isspace_def)
  then have "(df_rows (analyzed blank_client one_article 0) ! 0) answer_column = Str []"
    using analyzed_cell[of 0 one_article 0 blank_client] by (simp add: one_article_def)
  moreover have "\<not> no_abstract ((df_rows one_article ! 0) ''Abstract'')"
    by (simp add: one_article_def)
  moreover have "blank_client 0 (str_cell ((df_rows one_article ! 0) ''Abstract'')) = Inr '' ''"
    by (simp add: blank_client_def)
  ultimately show ?thesis by (intro conjI)
qed

text \<open>
  C6, amended. For every table with an \<open>Abstract\<close> column, in parallel mode (whatever the
  order in which the calls complete) and in sequential mode, \<open>batch_analyze\<close> returns, and
  every processed row index holds one result string: the empty string when the abstract
  of the row is empty or missing or when the call for the row failed, and otherwise the
  stripped answer of the model. A failed call changes no other row and never leaves the
  batch.
\<close>

theorem batch_analyze_rows:
  "(''Abstract'' \<in> set (df_columns df) \<and>
    mset (as_completed (rows_to_process (ensure_answer_column df) start_row)) =
      mset (rows_to_process (ensure_answer_column df) start_row) \<longrightarrow>
      batch_analyze client use_parallel as_completed df start_row =
        Inr (analyzed client df start_row)) \<and>
   length (df_rows (analyzed client df start_row)) = length (df_rows df) \<and>
   (i < length (df_rows df) \<and> start_row \<le> int i \<longrightarrow>
      (df_rows (analyzed client df start_row) ! i) answer_column = Str (row_result client df i)) \<and>
   (no_abstract ((df_rows df ! i) ''Abstract'') \<longrightarrow> row_result client df i = []) \<and>
   (client i (str_cell ((df_rows df ! i) ''Abstract'')) = Inl e \<longrightarrow> row_result client df i = []) \<and>
   (\<not> no_abstract ((df_rows df ! i) ''Abstract'') \<and>
    client i (str_cell ((df_rows df ! i) ''Abstract'')) = Inr content \<longrightarrow>
      row_result client df i = strip content)"
proof (intro conjI impI)
  assume "''Abstract'' \<in> set (df_columns df) \<and>
    mset (as_completed (rows_to_process (ensure_answer_column df) start_row)) =
      mset (rows_to_process (ensure_answer_column df) start_row)"
  then show "batch_analyze client use_parallel as_completed df start_row =
        Inr (analyzed client df start_row)"
    using batch_analyze_eq by blast
next
  show "length (df_rows (analyzed client df start_row)) = length (df_rows df)"
    by (rule analyzed_length)
next
  assume "i < length (df_rows df) \<and> start_row \<le> int i"
  then show "(df_rows (analyzed client df start_row) ! i) answer_column =
      Str (row_result client df i)"
    using analyzed_cell by blast
next
  assume "no_abstract ((df_rows df ! i) ''Abstract'')"
  then show "row_result client df i = []" by (rule row_result_cases(1))
next
  assume "client i (str_cell ((df_rows df ! i) ''Abstract'')) = Inl e"
  then show "row_result client df i = []" by (rule row_result_cases(2))
next
  assume "\<not> no_abstract ((df_rows df ! i) ''Abstract'') \<and>
    client i (str_cell ((df_rows df ! i) ''Abstract'')) = Inr content"
  then show "row_result client df i = strip content"
    using row_result_cases(3) by blast
qed

theorem batch_analyze_rows_witness:
  "''Abstract'' \<in> set (df_columns three_articles) \<and>
   mset (rev (rows_to_process (ensure_answer_column three_articles) 0)) =
     mset (rows_to_process (ensure_answer_column three_articles) 0) \<and>
   batch_analyze flaky_client True rev three_articles 0 =
     Inr (analyzed flaky_client three_articles 0) \<and>
   (df_rows (analyzed flaky_client three_articles 0) ! 0) answer_column = Str ''(A, B)'' \<and>
   (df_rows (analyzed flaky_client three_articles 0) ! 1) answer_column = Str [] \<and>
   (df_rows (analyzed flaky_client three_articles 0) ! 2) answer_column = Str []"
proof -
  have abs: "''Abstract'' \<in> set (df_columns three_articles)" by (simp add: three_articles_def)
  have ms: "mset (rev (rows_to_process (ensure_answer_column three_articles) 0)) =
     mset (rows_to_process (ensure_answer_column three_articles) 0)" by simp
  have len: "length (df_rows three_articles) = 3" by (simp add: three_articles_def)
  have s: "strip '' (A, B) '' = ''(A, B)''" by code_simp
  note t0 = batch_analyze_rows[of three_articles rev 0 flaky_client True 0 "''timeout''" "'' (A, B) ''"]
  note t1 = batch_analyze_rows[of three_articles rev 0 flaky_client True 1 "''timeout''" "'' (A, B) ''"]
  note t2 = batch_analyze_rows[of three_articles rev 0 flaky_client True 2 "''timeout''" "'' (A, B) ''"]
  have b: "batch_analyze flaky_client True rev three_articles 0 =
     Inr (analyzed flaky_client three_articles 0)"
    using abs ms t0 by blast
  have r0: "row_result flaky_client three_articles 0 = strip '' (A, B) ''"
    using t0 by (simp add: three_articles_def flaky_client_def)
  have r1: "row_result flaky_client three_articles 1 = []"
    using t1 by (simp add: three_articles_def)
  have r2: "row_result flaky_client three_articles 2 = []"
    using t2 by (simp add: three_articles_def flaky_client_def)
  have c0: "(df_rows (analyzed flaky_client three_articles 0) ! 0) answer_column = Str ''(A, B)''"
    using t0 len r0 s by simp
  have c1: "(df_rows (analyzed flaky_client three_articles 0) ! 1) answer_column = Str []"
    using t1 len r1 by simp
  have c2: "(df_rows (analyzed flaky_client three_articles 0) ! 2) answer_column = Str []"
    using t2 len r2 by simp
  show ?thesis using abs ms b c0 c1 c2 by (intro conjI)
qed

text \<open>
  C7. If a call inside the \<open>try\<close> block of \<open>build_knowledge_graph\<close> raises an exception,
  the function still returns the results dictionary: it is the dictionary as it stood
  when the call raised, with the message stored under \<open>error\<close>. So every entry that was
  in the dictionary after any earlier step (files, statistics, entities) is in the
  returned value with the same value; without a raise there is no \<open>error\<close> entry. This
  is so for each of the eleven calls of the block, in their order: when the calls before
  it have returned (the search with a table that is not empty) and the call raises, the
  returned dictionary holds the message under \<open>error\<close> and exactly the entries written
  before the call. When no call raises, the dictionary has all entries and no \<open>error\<close>;
  when the search finds nothing, the dictionary is returned after the first step.
\<close>

theorem pipeline_error_caught:
  "(run (steps oc) (init_results kw) = Raise e r \<longrightarrow>
      build_knowledge_graph oc kw = r\<lparr>r_error := Some e\<rparr> \<and>
      r_error (build_knowledge_graph oc kw) = Some e \<and>
      kept r (build_knowledge_graph oc kw)) \<and>
   (k < length (steps oc) \<and> run (take k (steps oc)) (init_results kw) = Next rk \<and>
    (steps oc ! k) rk = Raise e' r' \<longrightarrow>
      run (steps oc) (init_results kw) = Raise e' r' \<and> kept rk r') \<and>
   (j \<le> length (steps oc) \<and> run (take j (steps oc)) (init_results kw) = Next rj \<longrightarrow>
      kept rj (build_knowledge_graph oc kw)) \<and>
   ((\<forall>e r. run (steps oc) (init_results kw) \<noteq> Raise e r) \<longrightarrow>
      r_error (build_knowledge_graph oc kw) = None) \<and>
   (o_search_and_save oc = Inl e \<longrightarrow>
      build_knowledge_graph oc kw =
        \<lparr>r_keyword = kw,
         r_files = [],
         r_statistics = [],
         r_entities = None, r_node_names = None,
         r_ai_summary = None, r_error = Some e\<rparr>) \<and>
   (o_search_and_save oc = Inr (n, False, f) \<and>
    o_batch_analyze oc = Inl e \<longrightarrow>
      build_knowledge_graph oc kw =
        \<lparr>r_keyword = kw,
         r_files = [(''search_results'', f)],
         r_statistics = [(''total_articles'', Count (int n))],
         r_entities = None, r_node_names = None,
         r_ai_summary = None, r_error = Some e\<rparr>) \<and>
   (o_search_and_save oc = Inr (n, False, f) \<and>
    o_batch_analyze oc = Inr u \<and>
    o_save_results oc = Inl e \<longrightarrow>
      build_knowledge_graph oc kw =
        \<lparr>r_keyword = kw,
         r_files = [(''search_results'', f)],
         r_statistics = [(''total_articles'', Count (int n))],
         r_entities = None, r_node_names = None,
         r_ai_summary = None, r_error = Some e\<rparr>) \<and>
   (o_search_and_save oc = Inr (n, False, f) \<and>
    o_batch_analyze oc = Inr u \<and>
    o_save_results oc = Inr cf \<and>
    o_process_entities oc = Inl e \<longrightarrow>
      build_knowledge_graph oc kw =
        \<lparr>r_keyword = kw,
         r_files = [(''search_results'', f),
                    (''causal_analysis'', Some cf)],
         r_statistics = [(''total_articles'', Count (int n))],
         r_entities = None, r_node_names = None,
         r_ai_summary = None, r_error = Some e\<rparr>) \<and>
   (o_search_and_save oc = Inr (n, False, f) \<and>
    o_batch_analyze oc = Inr u \<and>
    o_save_results oc = Inr cf \<and>
    o_process_entities oc = Inr (ents, m) \<and>
    o_save_processed_data oc = Inl e \<longrightarrow>
      build_knowledge_graph oc kw =
        \<lparr>r_keyword = kw,
         r_files = [(''search_results'', f),
                    (''causal_analysis'', Some cf)],
         r_statistics = [(''total_articles'', Count (int n))],
         r_entities = None, r_node_names = None,
         r_ai_summary = None, r_error = Some e\<rparr>) \<and>
   (o_search_and_save oc = Inr (n, False, f) \<and>
    o_batch_analyze oc = Inr u \<and>
    o_save_results oc = Inr cf \<and>
    o_process_entities oc = Inr (ents, m) \<and>
    o_save_processed_data oc = Inr pf \<and>
    o_create_full_network oc = Inl e \<longrightarrow>
      build_knowledge_graph oc kw =
        \<lparr>r_keyword = kw,
         r_files = [(''search_results'', f),
                    (''causal_analysis'', Some cf),
                    (''processed_data'', Some pf)],
         r_statistics = [(''total_articles'', Count (int n)),
                         (''total_entities'', Count (int (length ents))),
                         (''unique_entities'', Count (int (length ents) - int m))],
         r_entities = Some ents, r_node_names = None,
         r_ai_summary = None, r_error = Some e\<rparr>) \<and>
   (o_search_and_save oc = Inr (n, False, f) \<and>
    o_batch_analyze oc = Inr u \<and>
    o_save_results oc = Inr cf \<and>
    o_process_entities oc = Inr (ents, m) \<and>
    o_save_processed_data oc = Inr pf \<and>
    o_create_full_network oc = Inr ff \<and>
    o_create_filtered_network oc = Inl e \<longrightarrow>
      build_knowledge_graph oc kw =
        \<lparr>r_keyword = kw,
         r_files = [(''search_results'', f),
                    (''causal_analysis'', Some cf),
                    (''processed_data'', Some pf),
                    (''full_network'', Some ff)],
         r_statistics = [(''total_articles'', Count (int n)),
                         (''total_entities'', Count (int (length ents))),
                         (''unique_entities'', Count (int (length ents) - int m))],
         r_entities = Some ents, r_node_names = None,
         r_ai_summary = None, r_error = Some e\<rparr>) \<and>
   (o_search_and_save oc = Inr (n, False, f) \<and>
    o_batch_analyze oc = Inr u \<and>
    o_save_results oc = Inr cf \<and>
    o_process_entities oc = Inr (ents, m) \<and>
    o_save_processed_data oc = Inr pf \<and>
    o_create_full_network oc = Inr ff \<and>
    o_create_filtered_network oc = Inr (nf, names) \<and>
    o_analyze_network_structure oc = Inl e \<longrightarrow>
      build_knowledge_graph oc kw =
        \<lparr>r_keyword = kw,
         r_files = [(''search_results'', f),
                    (''causal_analysis'', Some cf),
                    (''processed_data'', Some pf),
                    (''full_network'', Some ff),
                    (''filtered_network'', Some nf)],
         r_statistics = [(''total_articles'', Count (int n)),
                         (''total_entities'', Count (int (length ents))),
                         (''unique_entities'', Count (int (length ents) - int m))],
         r_entities = Some ents, r_node_names = Some names,
         r_ai_summary = None, r_error = Some e\<rparr>) \<and>
   (o_search_and_save oc = Inr (n, False, f) \<and>
    o_batch_analyze oc = Inr u \<and>
    o_save_results oc = Inr cf \<and>
    o_process_entities oc = Inr (ents, m) \<and>
    o_save_processed_data oc = Inr pf \<and>
    o_create_full_network oc = Inr ff \<and>
    o_create_filtered_network oc = Inr (nf, names) \<and>
    o_analyze_network_structure oc = Inr ns \<and>
    o_generate_summary oc = Inl e \<longrightarrow>
      build_knowledge_graph oc kw =
        \<lparr>r_keyword = kw,
         r_files = [(''search_results'', f),
                    (''causal_analysis'', Some cf),
                    (''processed_data'', Some pf),
                    (''full_network'', Some ff),
                    (''filtered_network'', Some nf)],
         r_statistics = [(''total_articles'', Count (int n)),
                         (''total_entities'', Count (int (length ents))),
                         (''unique_entities'', Count (int (length ents) - int m)),
                         (''network_stats'', Network_stats ns)],
         r_entities = Some ents, r_node_names = Some names,
         r_ai_summary = None, r_error = Some e\<rparr>) \<and>
   (o_search_and_save oc = Inr (n, False, f) \<and>
    o_batch_analyze oc = Inr u \<and>
    o_save_results oc = Inr cf \<and>
    o_process_entities oc = Inr (ents, m) \<and>
    o_save_processed_data oc = Inr pf \<and>
    o_create_full_network oc = Inr ff \<and>
    o_create_filtered_network oc = Inr (nf, names) \<and>
    o_analyze_network_structure oc = Inr ns \<and>
    o_generate_summary oc = Inr summary \<and>
    o_generate_full_report oc = Inl e \<longrightarrow>
      build_knowledge_graph oc kw =
        \<lparr>r_keyword = kw,
         r_files = [(''search_results'', f),
                    (''causal_analysis'', Some cf),
                    (''processed_data'', Some pf),
                    (''full_network'', Some ff),
                    (''filtered_network'', Some nf)],
         r_statistics = [(''total_articles'', Count (int n)),
                         (''total_entities'', Count (int (length ents))),
                         (''unique_entities'', Count (int (length ents) - int m)),
                         (''network_stats'', Network_stats ns)],
         r_entities = Some ents, r_node_names = Some names,
         r_ai_summary = Some summary, r_error = Some e\<rparr>) \<and>
   (o_search_and_save oc = Inr (n, False, f) \<and>
    o_batch_analyze oc = Inr u \<and>
    o_save_results oc = Inr cf \<and>
    o_process_entities oc = Inr (ents, m) \<and>
    o_save_processed_data oc = Inr pf \<and>
    o_create_full_network oc = Inr ff \<and>
    o_create_filtered_network oc = Inr (nf, names) \<and>
    o_analyze_network_structure oc = Inr ns \<and>
    o_generate_summary oc = Inr summary \<and>
    o_generate_full_report oc = Inr rf \<and>
    o_save_results_json oc = Inl e \<longrightarrow>
      build_knowledge_graph oc kw =
        \<lparr>r_keyword = kw,
         r_files = [(''search_results'', f),
                    (''causal_analysis'', Some cf),
                    (''processed_data'', Some pf),
                    (''full_network'', Some ff),
                    (''filtered_network'', Some nf),
                    (''report'', Some rf)],
         r_statistics = [(''total_articles'', Count (int n)),
                         (''total_entities'', Count (int (length ents))),
                         (''unique_entities'', Count (int (length ents) - int m)),
                         (''network_stats'', Network_stats ns)],
         r_entities = Some ents, r_node_names = Some names,
         r_ai_summary = Some summary, r_error = Some e\<rparr>) \<and>
   (o_search_and_save oc = Inr (n, False, f) \<and>
    o_batch_analyze oc = Inr u \<and>
    o_save_results oc = Inr cf \<and>
    o_process_entities oc = Inr (ents, m) \<and>
    o_save_processed_data oc = Inr pf \<and>
    o_create_full_network oc = Inr ff \<and>
    o_create_filtered_network oc = Inr (nf, names) \<and>
    o_analyze_network_structure oc = Inr ns \<and>
    o_generate_summary oc = Inr summary \<and>
    o_generate_full_report oc = Inr rf \<and>
    o_save_results_json oc = Inr jf \<longrightarrow>
      build_knowledge_graph oc kw =
        \<lparr>r_keyword = kw,
         r_files = [(''search_results'', f),
                    (''causal_analysis'', Some cf),
                    (''processed_data'', Some pf),
                    (''full_network'', Some ff),
                    (''filtered_network'', Some nf),
                    (''report'', Some rf),
                    (''json_results'', Some jf)],
         r_statistics = [(''total_articles'', Count (int n)),
                         (''total_entities'', Count (int (length ents))),
                         (''unique_entities'', Count (int (length ents) - int m)),
                         (''network_stats'', Network_stats ns)],
         r_entities = Some ents, r_node_names = Some names,
         r_ai_summary = Some summary, r_error = None\<rparr>) \<and>
   (o_search_and_save oc = Inr (n, True, f) \<longrightarrow>
      build_knowledge_graph oc kw =
        \<lparr>r_keyword = kw,
         r_files = [(''search_results'', f)],
         r_statistics = [(''total_articles'', Count (int n))],
         r_entities = None, r_node_names = None,
         r_ai_summary = None, r_error = None\<rparr>) \<and>
   (o_search_and_save oc = Inr (n, False, f) \<and> o_batch_analyze oc = Inr u \<and>
    o_save_results oc = Inr cf \<and> o_process_entities oc = Inr (ents, m) \<and>
    o_save_processed_data oc = Inr pf \<and> o_create_full_network oc = Inr ff \<and>
    o_create_filtered_network oc = Inl e2 \<longrightarrow>
      r_error (build_knowledge_graph oc kw) = Some e2 \<and>
      map_of (r_files (build_knowledge_graph oc kw)) ''search_results'' = Some f \<and>
      map_of (r_files (build_knowledge_graph oc kw)) ''causal_analysis'' = Some (Some cf) \<and>
      map_of (r_files (build_knowledge_graph oc kw)) ''processed_data'' = Some (Some pf) \<and>
      map_of (r_files (build_knowledge_graph oc kw)) ''full_network'' = Some (Some ff) \<and>
      map_of (r_statistics (build_knowledge_graph oc kw)) ''total_articles'' = Some (Count (int n)) \<and>
      map_of (r_statistics (build_knowledge_graph oc kw)) ''total_entities'' =
        Some (Count (int (length ents))) \<and>
      r_entities (build_knowledge_graph oc kw) = Some ents \<and>
      r_keyword (build_knowledge_graph oc kw) = kw) \<and>
   build_knowledge_graph failing_run ''k'' =
     \<lparr>r_keyword = ''k'',
      r_files = [(''search_results'', Some ''out/k_pubmed_search_results.xlsx'')],
      r_statistics = [(''total_articles'', Count 3)], r_entities = None,
      r_node_names = None, r_ai_summary = None, r_error = Some ''connection lost''\<rparr>"
  apply (intro conjI)
  subgoal using raise_caught[of oc kw e r] by blast
  subgoal using first_raise[of k oc kw rk e' r'] by (simp add: length_steps)
  subgoal using prefix_kept[of j oc kw rj] by (simp add: length_steps)
  subgoal using no_raise_no_error[of oc kw] by blast
  subgoal
    by (simp add: build_knowledge_graph_def steps_def step_search_def step_analyze_def
        step_process_def step_visualize_def step_report_def init_results_def set_file_def
        set_stat_def)
  subgoal
    by (simp add: build_knowledge_graph_def steps_def step_search_def step_analyze_def
        step_process_def step_visualize_def step_report_def init_results_def set_file_def
        set_stat_def)
  subgoal
    by (simp add: build_knowledge_graph_def steps_def step_search_def step_analyze_def
        step_process_def step_visualize_def step_report_def init_results_def set_file_def
        set_stat_def)
  subgoal
    by (simp add: build_knowledge_graph_def steps_def step_search_def step_analyze_def
        step_process_def step_visualize_def step_report_def init_results_def set_file_def
        set_stat_def)
  subgoal
    by (simp add: build_knowledge_graph_def steps_def step_search_def step_analyze_def
        step_process_def step_visualize_def step_report_def init_results_def set_file_def
        set_stat_def)
  subgoal
    by (simp add: build_knowledge_graph_def steps_def step_search_def step_analyze_def
        step_process_def step_visualize_def step_report_def init_results_def set_file_def
        set_stat_def)
  subgoal
    by (simp add: build_knowledge_graph_def steps_def step_search_def step_analyze_def
        step_process_def step_visualize_def step_report_def init_results_def set_file_def
        set_stat_def)
  subgoal
    by (simp add: build_knowledge_graph_def steps_def step_search_def step_analyze_def
        step_process_def step_visualize_def step_report_def init_results_def set_file_def
        set_stat_def)
  subgoal
    by (simp add: build_knowledge_graph_def steps_def step_search_def step_analyze_def
        step_process_def step_visualize_def step_report_def init_results_def set_file_def
        set_stat_def)
  subgoal
    by (simp add: build_knowledge_graph_def steps_def step_search_def step_analyze_def
        step_process_def step_visualize_def step_report_def init_results_def set_file_def
        set_stat_def)
  subgoal
    by (simp add: build_knowledge_graph_def steps_def step_search_def step_analyze_def
        step_process_def step_visualize_def step_report_def init_results_def set_file_def
        set_stat_def)
  subgoal
    by (simp add: build_knowledge_graph_def steps_def step_search_def step_analyze_def
        step_process_def step_visualize_def step_report_def init_results_def set_file_def
        set_stat_def)
  subgoal
    by (simp add: build_knowledge_graph_def steps_def step_search_def step_analyze_def
        step_process_def step_visualize_def step_report_def init_results_def set_file_def
        set_stat_def)
  subgoal using filtered_network_raises[of oc n f u cf ents m pf ff e2 kw] by blast
  subgoal by (rule failing_run_value)
  done

theorem pipeline_error_caught_witness:
  "run (steps failing_run) (init_results ''k'') =
     Raise ''connection lost''
       \<lparr>r_keyword = ''k'',
        r_files = [(''search_results'', Some ''out/k_pubmed_search_results.xlsx'')],
        r_statistics = [(''total_articles'', Count 3)], r_entities = None,
        r_node_names = None, r_ai_summary = None, r_error = None\<rparr> \<and>
   r_error (build_knowledge_graph failing_run ''k'') = Some ''connection lost'' \<and>
   kept \<lparr>r_keyword = ''k'',
        r_files = [(''search_results'', Some ''out/k_pubmed_search_results.xlsx'')],
        r_statistics = [(''total_articles'', Count 3)], r_entities = None,
        r_node_names = None, r_ai_summary = None, r_error = None\<rparr>
     (build_knowledge_graph failing_run ''k'') \<and>
   map_of (r_files (build_knowledge_graph failing_run ''k'')) ''search_results'' =
     Some (Some ''out/k_pubmed_search_results.xlsx'') \<and>
   o_search_and_save report_failing_run = Inr (3, False, Some ''s.xlsx'') \<and>
   o_batch_analyze report_failing_run = Inr () \<and>
   o_save_results report_failing_run = Inr ''c.xlsx'' \<and>
   o_process_entities report_failing_run = Inr ([''p53'', ''MDM2'', ''TP53''], 1) \<and>
   o_save_processed_data report_failing_run = Inr ''p.xlsx'' \<and>
   o_create_full_network report_failing_run = Inr ''full.html'' \<and>
   o_create_filtered_network report_failing_run = Inr (''part.html'', [''p53'', ''MDM2'']) \<and>
   o_analyze_network_structure report_failing_run = Inr () \<and>
   o_generate_summary report_failing_run = Inr ''two genes'' \<and>
   o_generate_full_report report_failing_run = Inl ''disk full'' \<and>
   build_knowledge_graph report_failing_run ''k'' =
     \<lparr>r_keyword = ''k'',
      r_files = [(''search_results'', Some ''s.xlsx''), (''causal_analysis'', Some ''c.xlsx''),
                 (''processed_data'', Some ''p.xlsx''), (''full_network'', Some ''full.html''),
                 (''filtered_network'', Some ''part.html'')],
      r_statistics = [(''total_articles'', Count 3), (''total_entities'', Count 3),
                      (''unique_entities'', Count 2), (''network_stats'', Network_stats ())],
      r_entities = Some [''p53'', ''MDM2'', ''TP53''], r_node_names = Some [''p53'', ''MDM2''],
      r_ai_summary = Some ''two genes'', r_error = Some ''disk full''\<rparr>"
proof -
  let ?r = "\<lparr>r_keyword = ''k'',
        r_files = [(''search_results'', Some ''out/k_pubmed_search_results.xlsx'')],
        r_statistics = [(''total_articles'', Count 3)], r_entities = None,
        r_node_names = None, r_ai_summary = None, r_error = None\<rparr> :: unit results"
  have run: "run (steps failing_run) (init_results ''k'') = Raise ''connection lost'' ?r"
    by (simp add: steps_def step_search_def step_analyze_def failing_run_def init_results_def
        set_file_def set_stat_def)
  note t = pipeline_error_caught[where oc = failing_run and kw = "''k''"
      and e = "''connection lost''" and r = ?r]
  have c: "build_knowledge_graph failing_run ''k'' = ?r\<lparr>r_error := Some ''connection lost''\<rparr> \<and>
      r_error (build_knowledge_graph failing_run ''k'') = Some ''connection lost'' \<and>
      kept ?r (build_knowledge_graph failing_run ''k'')"
    using run t[THEN conjunct1] by (rule rev_mp)
  then have f: "map_of (r_files (build_knowledge_graph failing_run ''k'')) ''search_results'' =
     Some (Some ''out/k_pubmed_search_results.xlsx'')" by simp
  from c have c2: "r_error (build_knowledge_graph failing_run ''k'') = Some ''connection lost''"
    and c3: "kept ?r (build_knowledge_graph failing_run ''k'')" by blast+
  have h1: "o_search_and_save report_failing_run = Inr (3, False, Some ''s.xlsx'')"
    and h2: "o_batch_analyze report_failing_run = Inr ()"
    and h3: "o_save_results report_failing_run = Inr ''c.xlsx''"
    and h4: "o_process_entities report_failing_run = Inr ([''p53'', ''MDM2'', ''TP53''], 1)"
    and h5: "o_save_processed_data report_failing_run = Inr ''p.xlsx''"
    and h6: "o_create_full_network report_failing_run = Inr ''full.html''"
    and h7: "o_create_filtered_network report_failing_run = Inr (''part.html'', [''p53'', ''MDM2''])"
    and h8: "o_analyze_network_structure report_failing_run = Inr ()"
    and h9: "o_generate_summary report_failing_run = Inr ''two genes''"
    and h10: "o_generate_full_report report_failing_run = Inl ''disk full''"
    by (simp_all add: report_failing_run_def)
  note s = pipeline_error_caught[where oc = report_failing_run and kw = "''k''"
      and e = "''disk full''" and n = 3 and f = "Some ''s.xlsx''" and u = "()"
      and cf = "''c.xlsx''" and ents = "[''p53'', ''MDM2'', ''TP53'']" and m = 1
      and pf = "''p.xlsx''" and ff = "''full.html''" and nf = "''part.html''"
      and names = "[''p53'', ''MDM2'']" and ns = "()" and summary = "''two genes''"]
  note s10 = s[THEN conjunct2, THEN conjunct2, THEN conjunct2, THEN conjunct2,
      THEN conjunct2, THEN conjunct2, THEN conjunct2, THEN conjunct2, THEN conjunct2,
      THEN conjunct2, THEN conjunct2, THEN conjunct2, THEN conjunct2, THEN conjunct1]
  have hs: "o_search_and_save report_failing_run = Inr (3, False, Some ''s.xlsx'') \<and>
    o_batch_analyze report_failing_run = Inr () \<and>
    o_save_results report_failing_run = Inr ''c.xlsx'' \<and>
    o_process_entities report_failing_run = Inr ([''p53'', ''MDM2'', ''TP53''], 1) \<and>
    o_save_processed_data report_failing_run = Inr ''p.xlsx'' \<and>
    o_create_full_network report_failing_run = Inr ''full.html'' \<and>
    o_create_filtered_network report_failing_run = Inr (''part.html'', [''p53'', ''MDM2'']) \<and>
    o_analyze_network_structure report_failing_run = Inr () \<and>
    o_generate_summary report_failing_run = Inr ''two genes'' \<and>
    o_generate_full_report report_failing_run = Inl ''disk full''"
    using h1 h2 h3 h4 h5 h6 h7 h8 h9 h10 by (intro conjI)
  have v: "build_knowledge_graph report_failing_run ''k'' =
     \<lparr>r_keyword = ''k'',
      r_files = [(''search_results'', Some ''s.xlsx''), (''causal_analysis'', Some ''c.xlsx''),
                 (''processed_data'', Some ''p.xlsx''), (''full_network'', Some ''full.html''),
                 (''filtered_network'', Some ''part.html'')],
      r_statistics = [(''total_articles'', Count 3), (''total_entities'', Count 3),
                      (''unique_entities'', Count 2), (''network_stats'', Network_stats ())],
      r_entities = Some [''p53'', ''MDM2'', ''TP53''], r_node_names = Some [''p53'', ''MDM2''],
      r_ai_summary = Some ''two genes'', r_error = Some ''disk full''\<rparr>"
    using s10[rule_format, OF hs] by simp
  show ?thesis using run c2 c3 f h1 h2 h3 h4 h5 h6 h7 h8 h9 h10 v by (intro conjI)
qed

text \<open>
  C8. Applying the canonicalization map rewrites the column by literal substring
  replacement: with an empty map the table is returned as it is; otherwise the cell of
  every row becomes the text of the input cell with the entries of the map applied in turn
  by \<open>str.replace\<close>, the other columns unchanged. \<open>replace\<close> leaves a text without the
  duplicate string as it is, and at the first occurrence puts the canonical string and goes
  on behind the occurrence, so every occurrence is replaced wherever it stands in the text.
\<close>

theorem substitute_is_literal_replace:
  "substitute_similar_entities df [] column = Inr df \<and>
   (similar_phrases \<noteq> [] \<and> column \<in> set (df_columns df) \<longrightarrow>
      (\<exists>df'. substitute_similar_entities df similar_phrases column = Inr df' \<and>
         df_columns df' = df_columns df \<and> length (df_rows df') = length (df_rows df) \<and>
         (\<forall>i < length (df_rows df).
            (df_rows df' ! i) column =
              Str (replace_all similar_phrases (str_cell ((df_rows df ! i) column))) \<and>
            (\<forall>c. c \<noteq> column \<longrightarrow> (df_rows df' ! i) c = (df_rows df ! i) c)))) \<and>
   replace_all [] cell_value = cell_value \<and>
   replace_all ((similar, original) # rest) cell_value =
     replace_all rest (replace similar original cell_value) \<and>
   (similar \<noteq> [] \<and> \<not> str_in similar s \<longrightarrow> replace similar original s = s) \<and>
   (similar \<noteq> [] \<and> (\<forall>i < length a. \<not> prefix similar (drop i (a @ similar @ b))) \<longrightarrow>
      replace similar original (a @ similar @ b) = a @ original @ replace similar original b) \<and>
   (str_in similar s \<longleftrightarrow> (\<exists>p q. s = p @ similar @ q)) \<and>
   replace ''abc'' ''ab'' ''(xabcx, yabc)'' = ''(xabx, yab)''"
proof (intro conjI)
  show "substitute_similar_entities df [] column = Inr df" by (rule substitute_empty)
  show "similar_phrases \<noteq> [] \<and> column \<in> set (df_columns df) \<longrightarrow>
      (\<exists>df'. substitute_similar_entities df similar_phrases column = Inr df' \<and>
         df_columns df' = df_columns df \<and> length (df_rows df') = length (df_rows df) \<and>
         (\<forall>i < length (df_rows df).
            (df_rows df' ! i) column =
              Str (replace_all similar_phrases (str_cell ((df_rows df ! i) column))) \<and>
            (\<forall>c. c \<noteq> column \<longrightarrow> (df_rows df' ! i) c = (df_rows df ! i) c)))"
  proof (intro impI, elim conjE)
    assume "similar_phrases \<noteq> []" "column \<in> set (df_columns df)"
    then show "\<exists>df'. substitute_similar_entities df similar_phrases column = Inr df' \<and>
         df_columns df' = df_columns df \<and> length (df_rows df') = length (df_rows df) \<and>
         (\<forall>i < length (df_rows df).
            (df_rows df' ! i) column =
              Str (replace_all similar_phrases (str_cell ((df_rows df ! i) column))) \<and>
            (\<forall>c. c \<noteq> column \<longrightarrow> (df_rows df' ! i) c = (df_rows df ! i) c))"
      by (rule substitute_rows)
  qed
  show "replace_all [] cell_value = cell_value" by (rule replace_all_Nil)
  show "replace_all ((similar, original) # rest) cell_value =
     replace_all rest (replace similar original cell_value)" by (rule replace_all_Cons)
  show "similar \<noteq> [] \<and> \<not> str_in similar s \<longrightarrow> replace similar original s = s"
    using replace_no_occurrence[of similar s original] by simp
  show "similar \<noteq> [] \<and> (\<forall>i < length a. \<not> prefix similar (drop i (a @ similar @ b))) \<longrightarrow>
      replace similar original (a @ similar @ b) = a @ original @ replace similar original b"
  proof (intro impI, elim conjE)
    assume "similar \<noteq> []" "\<forall>i < length a. \<not> prefix similar (drop i (a @ similar @ b))"
    then show "replace similar original (a @ similar @ b) = a @ original @ replace similar original b"
      by (rule replace_first_occurrence)
  qed
  show "str_in similar s \<longleftrightarrow> (\<exists>p q. s = p @ similar @ q)" by (rule str_in_iff)
  show "replace ''abc'' ''ab'' ''(xabcx, yabc)'' = ''(xabx, yab)''" by (rule replace_example)
qed

theorem substitute_is_literal_replace_witness:
  "[(''abcd'', ''abc''), (''abc'', ''ab'')] \<noteq> [] \<and>
   answer_column \<in> set (df_columns \<lparr>df_columns = [''Title'', answer_column],
       df_rows = [(\<lambda>c. if c = answer_column then Str ''(xabcx, abcd)'' else Str ''T'')]\<rparr>) \<and>
   (\<exists>df'. substitute_similar_entities \<lparr>df_columns = [''Title'', answer_column],
              df_rows = [(\<lambda>c. if c = answer_column then Str ''(xabcx, abcd)'' else Str ''T'')]\<rparr>
            [(''abcd'', ''abc''), (''abc'', ''ab'')] answer_column = Inr df' \<and>
          (df_rows df' ! 0) answer_column = Str ''(xabx, ab)'') \<and>
   ''abc'' \<noteq> [] \<and> \<not> str_in ''abc'' ''ab cab'' \<and> replace ''abc'' ''ab'' ''ab cab'' = ''ab cab'' \<and>
   \<not> prefix ''abc'' (drop 0 (''x'' @ ''abc'' @ ''abc'')) \<and>
   replace ''abc'' ''ab'' (''x'' @ ''abc'' @ ''abc'') = ''x'' @ ''ab'' @ ''ab''"
proof -
  let ?df = "\<lparr>df_columns = [''Title'', answer_column],
       df_rows = [(\<lambda>c. if c = answer_column then Str ''(xabcx, abcd)'' else Str ''T'')]\<rparr>"
  let ?m = "[(''abcd'', ''abc''), (''abc'', ''ab'')]"
  note inst = substitute_is_literal_replace[of ?df answer_column ?m "''q''" "''abc''" "''ab''" "[]"
      "''ab cab''" "''x''" "''abc''"]
  have r: "replace_all ?m ''(xabcx, abcd)'' = ''(xabx, ab)''" by code_simp
  have h1: "?m \<noteq> [] \<and> answer_column \<in> set (df_columns ?df)" by simp
  from inst h1 obtain df' where
    df': "substitute_similar_entities ?df ?m answer_column = Inr df'"
    and row: "\<forall>i < length (df_rows ?df).
      (df_rows df' ! i) answer_column =
        Str (replace_all ?m (str_cell ((df_rows ?df ! i) answer_column)))"
    by blast
  have "(df_rows df' ! 0) answer_column = Str (replace_all ?m (str_cell ((df_rows ?df ! 0) answer_column)))"
    using row by simp
  then have c1: "(df_rows df' ! 0) answer_column = Str ''(xabx, ab)''"
    using r by simp
  have n: "''abc'' \<noteq> [] \<and> \<not> str_in ''abc'' ''ab cab''" by simp
  then have c2: "replace ''abc'' ''ab'' ''ab cab'' = ''ab cab''" using inst by blast
  have f: "''abc'' \<noteq> [] \<and> (\<forall>i < length ''x''. \<not> prefix ''abc'' (drop i (''x'' @ ''abc'' @ ''abc'')))"
    by simp
  then have "replace ''abc'' ''ab'' (''x'' @ ''abc'' @ ''abc'') = ''x'' @ ''ab'' @ replace ''abc'' ''ab'' ''abc''"
    using inst by blast
  moreover have "replace ''abc'' ''ab'' ''abc'' = ''ab''" by code_simp
  ultimately have c3: "replace ''abc'' ''ab'' (''x'' @ ''abc'' @ ''abc'') = ''x'' @ ''ab'' @ ''ab''"
    by simp
  have p: "\<not> prefix ''abc'' (drop 0 (''x'' @ ''abc'' @ ''abc''))" by simp
  show ?thesis using h1 df' c1 n c2 p c3 by blast
qed

text \<open>
  C9. As stated, for every input entity list, the claim fails: the list \<open>a\<close>, \<open>a\<close> gives the
  entry \<open>a \<mapsto> a\<close>.
\<close>

theorem self_map_counterexample:
  "(''a'', ''a'') \<in> set (find_similar_entities exceeds_default None [''a'', ''a''])"
  by (simp add: find_similar_entities_def find_similar_with_strings_def similar_loop_def
      index_pairs_def similar_step_def is_similar_def lower_def lower_char_def upt_rec)

text \<open>
  C9, amended. For every entity list without duplicates, and so for every list that
  \<open>extract_entities\<close> returns, no key of the canonicalization map is mapped to itself, in
  either mode.
\<close>

theorem no_self_map:
  "(distinct entities \<longrightarrow>
      (\<forall>(k, v) \<in> set (find_similar_with_strings exceeds entities). k \<noteq> v) \<and>
      (\<forall>(k, v) \<in> set (find_similar_with_embeddings entities above_threshold). k \<noteq> v) \<and>
      (\<forall>(k, v) \<in> set (find_similar_entities exceeds model entities). k \<noteq> v)) \<and>
   (\<forall>(k, v) \<in> set (find_similar_entities exceeds model (extract_entities df column)). k \<noteq> v)"
proof -
  have loop: "\<forall>(k, v) \<in> set (similar_loop sim es). k \<noteq> v" if "distinct es" for sim es
    using similar_loop_distinct[OF that] by blast
  have ent: "\<forall>(k, v) \<in> set (find_similar_entities exceeds model es). k \<noteq> v" if "distinct es" for es
  proof -
    obtain sim where "find_similar_entities exceeds model es = similar_loop sim es"
      using find_similar_entities_loop by blast
    then show ?thesis using loop[OF that] by simp
  qed
  show ?thesis
    using loop ent extract_entities_distinct
    unfolding find_similar_with_strings_def find_similar_with_embeddings_def
    by blast
qed

theorem no_self_map_witness:
  "distinct [''ab'', ''abc'', ''abcd''] \<and>
   find_similar_with_strings exceeds_default [''ab'', ''abc'', ''abcd''] =
     [(''abc'', ''ab''), (''abcd'', ''abc'')] \<and>
   (''abc'', ''abc'') \<notin> set (find_similar_with_strings exceeds_default [''ab'', ''abc'', ''abcd''])"
proof -
  have d: "distinct [''ab'', ''abc'', ''abcd'']" by simp
  have "\<forall>(k, v) \<in> set (find_similar_with_strings exceeds_default [''ab'', ''abc'', ''abcd'']). k \<noteq> v"
    using d no_self_map[of "[''ab'', ''abc'', ''abcd'']" exceeds_default "\<lambda>i j. False" None
      "\<lparr>df_columns = [], df_rows = []\<rparr>" "[]"]
    by blast
  then have "(''abc'', ''abc'') \<notin> set (find_similar_with_strings exceeds_default [''ab'', ''abc'', ''abcd''])"
    by blast
  then show ?thesis using d by (simp add: chain_value)
qed

text \<open>
  C10. For every table, \<open>extract_entities\<close> returns a list that is strictly sorted in the
  lexicographic order (so sorted and free of duplicates) and whose members are not empty
  and are whitespace-trimmed. The list, and with it the deduplication that consumes it,
  does not depend on the order of the rows.
\<close>

theorem extract_entities_sorted_unique:
  "sorted_wrt (<) (extract_entities df column) \<and>
   distinct (extract_entities df column) \<and>
   sorted (extract_entities df column) \<and>
   (\<forall>e \<in> set (extract_entities df column). e \<noteq> [] \<and> strip e = e) \<and>
   (df_columns df' = df_columns df \<and> mset (df_rows df') = mset (df_rows df) \<longrightarrow>
      extract_entities df' column = extract_entities df column \<and>
      find_similar_entities exceeds model (extract_entities df' column) =
        find_similar_entities exceeds model (extract_entities df column))"
proof -
  have "e \<noteq> [] \<and> strip e = e" if "e \<in> set (extract_entities df column)" for e
    using that extract_entities_nonempty[of df column] extract_entities_stripped[OF that] by auto
  moreover have "extract_entities df' column = extract_entities df column"
    if "df_columns df' = df_columns df" "mset (df_rows df') = mset (df_rows df)"
    using that(1) mset_eq_setD[OF that(2)] by (rule extract_entities_rows)
  ultimately show ?thesis
    using extract_entities_strict_sorted extract_entities_distinct extract_entities_sorted
    by metis
qed

theorem extract_entities_sorted_unique_witness:
  "df_columns \<lparr>df_columns = [''Title'', answer_column],
      df_rows = [(\<lambda>c. Str ''(c, b)''), (\<lambda>c. Str ''( b , a) (a,  )''), (\<lambda>c. NaN)]\<rparr> =
   df_columns \<lparr>df_columns = [''Title'', answer_column],
      df_rows = [(\<lambda>c. NaN), (\<lambda>c. Str ''( b , a) (a,  )''), (\<lambda>c. Str ''(c, b)'')]\<rparr> \<and>
   mset (df_rows \<lparr>df_columns = [''Title'', answer_column],
      df_rows = [(\<lambda>c. Str ''(c, b)''), (\<lambda>c. Str ''( b , a) (a,  )''), (\<lambda>c. NaN)]\<rparr>) =
   mset (df_rows \<lparr>df_columns = [''Title'', answer_column],
      df_rows = [(\<lambda>c. NaN), (\<lambda>c. Str ''( b , a) (a,  )''), (\<lambda>c. Str ''(c, b)'')]\<rparr>) \<and>
   extract_entities \<lparr>df_columns = [''Title'', answer_column],
      df_rows = [(\<lambda>c. Str ''(c, b)''), (\<lambda>c. Str ''( b , a) (a,  )''), (\<lambda>c. NaN)]\<rparr> answer_column =
     [''a'', ''b'', ''c''] \<and>
   extract_entities \<lparr>df_columns = [''Title'', answer_column],
      df_rows = [(\<lambda>c. NaN), (\<lambda>c. Str ''( b , a) (a,  )''), (\<lambda>c. Str ''(c, b)'')]\<rparr> answer_column =
     [''a'', ''b'', ''c'']"
proof -
  let ?d1 = "\<lparr>df_columns = [''Title'', answer_column],
      df_rows = [(\<lambda>c. NaN), (\<lambda>c. Str ''( b , a) (a,  )''), (\<lambda>c. Str ''(c, b)'')]\<rparr>"
  let ?d2 = "\<lparr>df_columns = [''Title'', answer_column],
      df_rows = [(\<lambda>c. Str ''(c, b)''), (\<lambda>c. Str ''( b , a) (a,  )''), (\<lambda>c. NaN)]\<rparr>"
  have e: "extract_entities ?d1 answer_column = [''a'', ''b'', ''c'']" by code_simp
  have m: "mset (df_rows ?d2) = mset (df_rows ?d1)" by (simp add: add_mset_commute)
  have c: "df_columns ?d2 = df_columns ?d1" by simp
  show ?thesis
    using e m c extract_entities_sorted_unique[of ?d1 answer_column ?d2 exceeds_default None]
    by simp
qed

end
